theory Spec2Isabelle
  imports Complex_Main
begin

section \<open>The bank cashier simulation\<close>

text \<open>
  The program under study is \<^verbatim>\<open>src/case_study/app.py\<close>: a generator process \<^verbatim>\<open>setup\<close>
  spawns \<^verbatim>\<open>CUSTOMERS\<close> customer processes, each of which requests one unit of a
  capacity-limited resource \<^verbatim>\<open>bank\<close>, records how long it waited, holds the unit for a
  random service duration and releases it.  The processes are Python generators driven
  by the event loop of the \<^verbatim>\<open>simpy\<close> library and the random numbers come from Python's
  \<^verbatim>\<open>random\<close> module.

  Time and all drawn numbers are modelled as real numbers (the program computes with
  double-precision floats; rounding is not modelled).
\<close>

subsection \<open>Errors and parameters\<close>

datatype error =
  ValueError            \<comment> \<open>non-positive capacity of a Resource, negative delay of a timeout\<close>
| ZeroDivisionError     \<comment> \<open>\<^verbatim>\<open>1.0 / interval\<close>, division in the utilization\<close>
| StatisticsError       \<comment> \<open>\<^verbatim>\<open>statistics.mean\<close> of an empty list\<close>
| UnboundLocalError     \<comment> \<open>a generator frame read before its first line ran\<close>
| EmptySchedule         \<comment> \<open>raised by one step of the event loop when no event is left\<close>

text \<open>The module-level constants of lines 10 to 14, as a record so that claims about
  other configurations can be stated.\<close>

record config =
  RANDOM_SEED :: int
  CUSTOMERS :: int
  INTERVAL :: real
  SERVICE_TIME :: "real \<times> real"
  CASHIERS :: int

definition app_config :: config where
  "app_config = \<lparr>RANDOM_SEED = 42, CUSTOMERS = 50, INTERVAL = 5,
     SERVICE_TIME = (3, 7), CASHIERS = 2\<rparr>"

subsection \<open>The random module\<close>

text \<open>
  After \<^verbatim>\<open>random.seed\<close> the module delivers a fixed stream of numbers in \<open>[0, 1)\<close>; the
  stream is a parameter \<open>u\<close> of the model and the state counts how many numbers were taken.
  The two distributions are the formulas of the standard library:
  \<^verbatim>\<open>uniform(a, b) = a + (b - a) * random()\<close> and
  \<^verbatim>\<open>expovariate(lambd) = -log(1.0 - random()) / lambd\<close>.
\<close>

definition uniform :: "real \<Rightarrow> real \<Rightarrow> real \<Rightarrow> real" where
  "uniform a b r = a + (b - a) * r"

definition expovariate :: "real \<Rightarrow> real \<Rightarrow> real" where
  "expovariate lambd r = - ln (1 - r) / lambd"

subsection \<open>The event loop and the resource\<close>

text \<open>
  Modelled from the spec: the event clock and scheduler (section 4.1) and the
  capacity-limited FIFO resource (section 4.3) are the classes \<^verbatim>\<open>Environment\<close> and
  \<^verbatim>\<open>Resource\<close> of the imported library \<^verbatim>\<open>simpy\<close>, whose code is not part of the
  repository.  The queue is ordered by \<open>(time, priority, eid)\<close>: the sequence number \<open>eid\<close>
  is allocated at schedule time, the start of a new process is scheduled with priority
  \<open>URGENT\<close> and every other event with priority \<open>NORMAL\<close>.
\<close>

datatype kind =
  InitSetup             \<comment> \<open>first execution of the process \<^verbatim>\<open>setup\<close>\<close>
| SetupTimeout          \<comment> \<open>the timeout \<^verbatim>\<open>setup\<close> waits for at line 44\<close>
| InitCustomer nat      \<comment> \<open>first execution of customer \<open>i\<close>\<close>
| Granted nat           \<comment> \<open>the request of customer \<open>i\<close> has succeeded\<close>
| ServiceTimeout nat    \<comment> \<open>the timeout customer \<open>i\<close> waits for at line 33\<close>
| Released nat          \<comment> \<open>the release of the unit held by customer \<open>i\<close>\<close>
| ProcessDone           \<comment> \<open>a generator has returned\<close>

datatype event = Event (time: real) (priority: nat) (eid: nat) (kind: kind)

definition URGENT :: nat where [simp]: "URGENT = 0"
definition NORMAL :: nat where [simp]: "NORMAL = 1"

record state =
  now :: real                            \<comment> \<open>\<^verbatim>\<open>env.now\<close>\<close>
  next_eid :: nat                        \<comment> \<open>the counter of sequence numbers\<close>
  queue :: "event list"                  \<comment> \<open>the scheduled events\<close>
  users :: "nat list"                    \<comment> \<open>\<^verbatim>\<open>bank.users\<close>: granted, not released\<close>
  put_queue :: "nat list"                \<comment> \<open>\<^verbatim>\<open>bank.put_queue\<close>: waiting requests\<close>
  usage_since :: "nat \<Rightarrow> real option"     \<comment> \<open>per request: time of the grant\<close>
  spawned :: nat                         \<comment> \<open>iterations of the loop of \<^verbatim>\<open>setup\<close> begun\<close>
  draws :: nat                           \<comment> \<open>numbers taken from the random stream\<close>
  arrive :: "nat \<Rightarrow> real option"          \<comment> \<open>per customer: local \<^verbatim>\<open>arrive\<close>\<close>
  wait :: "nat \<Rightarrow> real option"            \<comment> \<open>per customer: local \<^verbatim>\<open>wait\<close>\<close>
  service_duration :: "nat \<Rightarrow> real option" \<comment> \<open>per customer: local \<^verbatim>\<open>service_duration\<close>\<close>
  leaves :: "nat \<Rightarrow> real option"          \<comment> \<open>per customer: \<^verbatim>\<open>env.now\<close> at line 34\<close>
  wait_times :: "real list"
  service_times :: "real list"
  busy_time :: real                      \<comment> \<open>\<^verbatim>\<open>busy_time[0]\<close>\<close>
  delays :: "real list"                  \<comment> \<open>history: the delays \<^verbatim>\<open>setup\<close> has drawn\<close>

definition schedule :: "kind \<Rightarrow> nat \<Rightarrow> real \<Rightarrow> state \<Rightarrow> state" where
  "schedule k p delay s =
     s\<lparr>queue := queue s @ [Event (now s + delay) p (next_eid s) k],
       next_eid := Suc (next_eid s)\<rparr>"

text \<open>\<^verbatim>\<open>env.timeout(delay)\<close> refuses a negative delay.\<close>

definition timeout :: "kind \<Rightarrow> real \<Rightarrow> state \<Rightarrow> error + state" where
  "timeout k delay s =
     (if delay < 0 then Inl ValueError else Inr (schedule k NORMAL delay s))"

definition key_less :: "event \<Rightarrow> event \<Rightarrow> bool" where
  "key_less a b \<longleftrightarrow>
     time a < time b \<or>
     (time a = time b \<and>
       (priority a < priority b \<or> (priority a = priority b \<and> eid a < eid b)))"

fun heap_min :: "event \<Rightarrow> event list \<Rightarrow> event" where
  "heap_min m [] = m"
| "heap_min m (e # es) = heap_min (if key_less e m then e else m) es"

definition heappop :: "event list \<Rightarrow> (event \<times> event list) option" where
  "heappop q = (case q of [] \<Rightarrow> None | e # es \<Rightarrow> Some (heap_min e es, remove1 (heap_min e es) q))"

text \<open>
  The resource looks at the head of its queue of waiting requests only: the head is
  granted a unit when fewer than \<open>capacity\<close> requests are in \<open>users\<close>, and the grant is an
  event scheduled at the current time.
\<close>

definition trigger_put :: "int \<Rightarrow> state \<Rightarrow> state" where
  "trigger_put capacity s =
     (case put_queue s of
        [] \<Rightarrow> s
      | i # rest \<Rightarrow>
          if int (length (users s)) < capacity
          then schedule (Granted i) NORMAL 0
                 (s\<lparr>users := users s @ [i],
                    usage_since := (usage_since s)(i \<mapsto> now s),
                    put_queue := rest\<rparr>)
          else s)"

definition request :: "int \<Rightarrow> nat \<Rightarrow> state \<Rightarrow> state" where
  "request capacity i s = trigger_put capacity (s\<lparr>put_queue := put_queue s @ [i]\<rparr>)"

definition release :: "nat \<Rightarrow> state \<Rightarrow> state" where
  "release i s = schedule (Released i) NORMAL 0 (s\<lparr>users := remove1 i (users s)\<rparr>)"

subsection \<open>The processes of the program\<close>

text \<open>Lines 21 to 25 of \<^verbatim>\<open>customer\<close>: up to the suspension on the request.\<close>

definition customer_arrive :: "config \<Rightarrow> nat \<Rightarrow> state \<Rightarrow> state" where
  "customer_arrive cfg i s =
     request (CASHIERS cfg) i (s\<lparr>arrive := (arrive s)(i \<mapsto> now s)\<rparr>)"

text \<open>Lines 26 to 33: resumed by the grant, up to the suspension on the service timeout.\<close>

definition customer_serve :: "config \<Rightarrow> (nat \<Rightarrow> real) \<Rightarrow> nat \<Rightarrow> state \<Rightarrow> error + state" where
  "customer_serve cfg u i s =
     (case arrive s i of
        None \<Rightarrow> Inl UnboundLocalError
      | Some a \<Rightarrow>
          timeout (ServiceTimeout i)
            (uniform (fst (SERVICE_TIME cfg)) (snd (SERVICE_TIME cfg)) (u (draws s)))
            (s\<lparr>wait := (wait s)(i \<mapsto> now s - a),
               wait_times := wait_times s @ [now s - a],
               draws := Suc (draws s),
               service_duration := (service_duration s)(i \<mapsto>
                 uniform (fst (SERVICE_TIME cfg)) (snd (SERVICE_TIME cfg)) (u (draws s))),
               service_times := service_times s @
                 [uniform (fst (SERVICE_TIME cfg)) (snd (SERVICE_TIME cfg)) (u (draws s))],
               busy_time := busy_time s +
                 uniform (fst (SERVICE_TIME cfg)) (snd (SERVICE_TIME cfg)) (u (draws s))\<rparr>))"

text \<open>Resumed by the service timeout: the \<^verbatim>\<open>with\<close> block releases the unit and the
  generator returns.\<close>

definition customer_leave :: "nat \<Rightarrow> state \<Rightarrow> state" where
  "customer_leave i s =
     schedule ProcessDone NORMAL 0 (release i (s\<lparr>leaves := (leaves s)(i \<mapsto> now s)\<rparr>))"

text \<open>One iteration of the loop of \<^verbatim>\<open>setup\<close> (lines 42 to 44), or its end.\<close>

definition setup_loop :: "config \<Rightarrow> (nat \<Rightarrow> real) \<Rightarrow> state \<Rightarrow> error + state" where
  "setup_loop cfg u s =
     (if int (spawned s) < CUSTOMERS cfg
      then if INTERVAL cfg = 0 then Inl ZeroDivisionError
           else timeout SetupTimeout (expovariate (1 / INTERVAL cfg) (u (draws s)))
                  ((schedule (InitCustomer (spawned s)) URGENT 0 s)
                     \<lparr>spawned := Suc (spawned s),
                      draws := Suc (draws s),
                      delays := delays s @ [expovariate (1 / INTERVAL cfg) (u (draws s))]\<rparr>)
      else Inr (schedule ProcessDone NORMAL 0 s))"

text \<open>Line 41: the constructor of the resource refuses a capacity that is not positive.\<close>

definition setup_start :: "config \<Rightarrow> (nat \<Rightarrow> real) \<Rightarrow> state \<Rightarrow> error + state" where
  "setup_start cfg u s =
     (if CASHIERS cfg \<le> 0 then Inl ValueError else setup_loop cfg u s)"

fun dispatch :: "config \<Rightarrow> (nat \<Rightarrow> real) \<Rightarrow> kind \<Rightarrow> state \<Rightarrow> error + state" where
  "dispatch cfg u InitSetup s = setup_start cfg u s"
| "dispatch cfg u SetupTimeout s = setup_loop cfg u s"
| "dispatch cfg u (InitCustomer i) s = Inr (customer_arrive cfg i s)"
| "dispatch cfg u (Granted i) s = customer_serve cfg u i s"
| "dispatch cfg u (ServiceTimeout i) s = Inr (customer_leave i s)"
| "dispatch cfg u (Released i) s = Inr (trigger_put (CASHIERS cfg) s)"
| "dispatch cfg u ProcessDone s = Inr s"

definition env_step :: "config \<Rightarrow> (nat \<Rightarrow> real) \<Rightarrow> state \<Rightarrow> error + state" where
  "env_step cfg u s =
     (case heappop (queue s) of
        None \<Rightarrow> Inl EmptySchedule
      | Some (e, q) \<Rightarrow> dispatch cfg u (kind e) (s\<lparr>now := time e, queue := q\<rparr>))"

text \<open>Lines 52 to 58: a fresh environment, the empty statistics, and the process
  \<^verbatim>\<open>setup\<close> scheduled for its first execution.\<close>

definition initial :: state where
  "initial = schedule InitSetup URGENT 0
     \<lparr>now = 0, next_eid = 0, queue = [], users = [], put_queue = [],
      usage_since = Map.empty, spawned = 0, draws = 0, arrive = Map.empty,
      wait = Map.empty, service_duration = Map.empty, leaves = Map.empty,
      wait_times = [], service_times = [], busy_time = 0, delays = []\<rparr>"

text \<open>The weight of the work an event can still cause; it bounds the length of a run.\<close>

fun weight :: "kind \<Rightarrow> nat" where
  "weight InitSetup = 2"
| "weight SetupTimeout = 2"
| "weight (InitCustomer i) = 5"
| "weight (Granted i) = 4"
| "weight (ServiceTimeout i) = 3"
| "weight (Released i) = 1"
| "weight ProcessDone = 1"

definition work :: "config \<Rightarrow> state \<Rightarrow> nat" where
  "work cfg s = 6 * nat (CUSTOMERS cfg - int (spawned s))
     + sum_list (map (\<lambda>e. weight (kind e)) (queue s)) + 4 * length (put_queue s)"


text \<open>
  \<^verbatim>\<open>env.run()\<close> executes one step after the other until a step finds no event left; an
  exception raised by a process leaves the loop.  (The library re-raises the exception
  of a failed process when the loop reaches the event of that process, at the same
  simulated time; the model raises it at once.)
\<close>

function env_run :: "config \<Rightarrow> (nat \<Rightarrow> real) \<Rightarrow> state \<Rightarrow> error + state" where
  "env_run cfg u s =
     (case env_step cfg u s of
        Inl e \<Rightarrow> if e = EmptySchedule then Inr s else Inl e
      | Inr s' \<Rightarrow> env_run cfg u s')"
  by pat_completeness auto
termination
proof (relation "measure (\<lambda>(cfg, u, s). work cfg s)")
  show "wf (measure (\<lambda>(cfg, u, s). work cfg s))"
    by simp
next
  fix cfg :: config and u :: "nat \<Rightarrow> real" and s s' :: state
  assume a: "env_step cfg u s = Inr s'"
  have m: "heap_min m es \<in> set (m # es)" for m es
    by (induction es arbitrary: m) auto
  from a obtain e q where p: "heappop (queue s) = Some (e, q)"
    and d: "dispatch cfg u (kind e) (s\<lparr>now := time e, queue := q\<rparr>) = Inr s'"
    unfolding env_step_def by (auto split: option.splits)
  from p have e: "e \<in> set (queue s)" and q: "q = remove1 e (queue s)"
    unfolding heappop_def using m by (auto split: list.splits)
  have w: "sum_list (map (\<lambda>e. weight (kind e)) (queue s))
      = weight (kind e) + sum_list (map (\<lambda>e. weight (kind e)) q)"
    using e q by (simp add: sum_list_map_remove1)
  have l: "length ys = length xs" if "xs @ [x] = y # ys" for xs ys :: "nat list" and x y
    using that by (metis length_append_singleton length_Cons nat.inject)
  have "work cfg s' < work cfg s"
    using d w
    by (cases "kind e")
       (auto simp: work_def setup_start_def setup_loop_def timeout_def schedule_def
          customer_arrive_def request_def trigger_put_def customer_serve_def
          customer_leave_def release_def
          split: if_splits list.splits option.splits dest!: l)
  then show "((cfg, u, s'), (cfg, u, s)) \<in> measure (\<lambda>(cfg, u, s). work cfg s)"
    by simp
qed

declare env_run.simps [simp del]

text \<open>The states a run passes through: \<open>env_steps cfg u n s\<close> is the state after \<open>n\<close>
  steps from \<open>s\<close>.\<close>

fun env_steps :: "config \<Rightarrow> (nat \<Rightarrow> real) \<Rightarrow> nat \<Rightarrow> state \<Rightarrow> error + state" where
  "env_steps cfg u 0 s = Inr s"
| "env_steps cfg u (Suc n) s =
     (case env_step cfg u s of Inl e \<Rightarrow> Inl e | Inr s' \<Rightarrow> env_steps cfg u n s')"

inductive reachable :: "config \<Rightarrow> (nat \<Rightarrow> real) \<Rightarrow> state \<Rightarrow> bool" for cfg u where
  start: "reachable cfg u initial"
| step: "reachable cfg u s \<Longrightarrow> env_step cfg u s = Inr s' \<Longrightarrow> reachable cfg u s'"

subsection \<open>The run and its summary\<close>

definition mean :: "real list \<Rightarrow> error + real" where
  "mean xs = (if xs = [] then Inl StatisticsError else Inr (sum_list xs / real (length xs)))"

record summary =
  served :: int
  avg_wait :: real
  avg_service :: real
  total_time :: real
  utilization :: real
  waits :: "real list"
  services :: "real list"

text \<open>
  \<^verbatim>\<open>run_simulation\<close>, lines 49 to 73, and the sequence plotted at line 79.  The stream of
  the random module is fixed by the seed: \<open>prng\<close> maps a seed to its stream.
\<close>

definition run_simulation :: "(int \<Rightarrow> nat \<Rightarrow> real) \<Rightarrow> config \<Rightarrow> error + summary" where
  "run_simulation prng cfg =
     (case env_run cfg (prng (RANDOM_SEED cfg)) initial of
        Inl e \<Rightarrow> Inl e
      | Inr s \<Rightarrow>
         (case mean (wait_times s) of
            Inl e \<Rightarrow> Inl e
          | Inr aw \<Rightarrow>
             (case mean (service_times s) of
                Inl e \<Rightarrow> Inl e
              | Inr asv \<Rightarrow>
                 if now s * real_of_int (CASHIERS cfg) = 0 then Inl ZeroDivisionError
                 else Inr \<lparr>served = CUSTOMERS cfg, avg_wait = aw, avg_service = asv,
                        total_time = now s,
                        utilization = busy_time s / (now s * real_of_int (CASHIERS cfg)) * 100,
                        waits = wait_times s, services = service_times s\<rparr>)))"


subsection \<open>A scenario without randomness\<close>

text \<open>
  One cashier and three customers.  The stream is chosen so that the first two
  inter-arrival delays are \<open>1\<close> (the customers arrive at \<open>0\<close>, \<open>1\<close> and \<open>2\<close>), the
  last delay is \<open>0\<close>, and every service duration is \<open>3\<close>.
\<close>

definition scenario_config :: config where
  "scenario_config = \<lparr>RANDOM_SEED = 42, CUSTOMERS = 3, INTERVAL = 5,
     SERVICE_TIME = (3, 7), CASHIERS = 1\<rparr>"

definition scenario_stream :: "nat \<Rightarrow> real" where
  "scenario_stream k = (if k = 0 \<or> k = 2 then 1 - exp (- (1 / 5)) else 0)"

definition scenario_prng :: "int \<Rightarrow> nat \<Rightarrow> real" where
  "scenario_prng seed = scenario_stream"

subsection \<open>Invariants of a run\<close>

text \<open>Counting the scheduled events of one kind, or of a class of kinds.\<close>

definition npend :: "event list \<Rightarrow> kind \<Rightarrow> nat" where
  "npend q k = length (filter (\<lambda>e. kind e = k) q)"

fun is_init :: "kind \<Rightarrow> bool" where
  "is_init (InitCustomer i) = True"
| "is_init _ = False"

fun is_grant :: "kind \<Rightarrow> bool" where
  "is_grant (Granted i) = True"
| "is_grant _ = False"

fun is_service :: "kind \<Rightarrow> bool" where
  "is_service (ServiceTimeout i) = True"
| "is_service _ = False"

fun is_released :: "kind \<Rightarrow> bool" where
  "is_released (Released i) = True"
| "is_released _ = False"

fun is_setup :: "kind \<Rightarrow> bool" where
  "is_setup InitSetup = True"
| "is_setup SetupTimeout = True"
| "is_setup _ = False"

definition count_kind :: "(kind \<Rightarrow> bool) \<Rightarrow> event list \<Rightarrow> nat" where
  "count_kind P q = length (filter (\<lambda>e. P (kind e)) q)"

text \<open>The clock never runs ahead of a scheduled event.\<close>

definition inv_time :: "state \<Rightarrow> bool" where
  "inv_time s \<longleftrightarrow> 0 \<le> now s \<and> (\<forall>e\<in>set (queue s). now s \<le> time e)"

text \<open>
  The life of customer \<open>i\<close>: spawned, arrived (\<open>arrive\<close> set), granted (\<open>usage_since\<close>
  set), in service (\<open>wait\<close> set), gone (\<open>leaves\<close> set).  In each phase exactly one
  event or queue entry stands for the customer.
\<close>

definition ok_fields :: "state \<Rightarrow> nat \<Rightarrow> bool" where
  "ok_fields s i \<longleftrightarrow>
     (arrive s i \<noteq> None \<longrightarrow> i < spawned s) \<and>
     (usage_since s i \<noteq> None \<longrightarrow> arrive s i \<noteq> None) \<and>
     (wait s i \<noteq> None \<longrightarrow> usage_since s i \<noteq> None) \<and>
     (leaves s i \<noteq> None \<longrightarrow> wait s i \<noteq> None)"

definition ok_init :: "state \<Rightarrow> nat \<Rightarrow> bool" where
  "ok_init s i \<longleftrightarrow>
     npend (queue s) (InitCustomer i) = (if i < spawned s \<and> arrive s i = None then 1 else 0)"

definition ok_putq :: "state \<Rightarrow> nat \<Rightarrow> bool" where
  "ok_putq s i \<longleftrightarrow>
     count_list (put_queue s) i =
       (if arrive s i \<noteq> None \<and> usage_since s i = None then 1 else 0)"

definition ok_granted :: "state \<Rightarrow> nat \<Rightarrow> bool" where
  "ok_granted s i \<longleftrightarrow>
     npend (queue s) (Granted i) =
       (if usage_since s i \<noteq> None \<and> wait s i = None then 1 else 0)"

definition ok_service :: "state \<Rightarrow> nat \<Rightarrow> bool" where
  "ok_service s i \<longleftrightarrow>
     npend (queue s) (ServiceTimeout i) =
       (if wait s i \<noteq> None \<and> leaves s i = None then 1 else 0)"

definition ok_users :: "state \<Rightarrow> nat \<Rightarrow> bool" where
  "ok_users s i \<longleftrightarrow>
     count_list (users s) i =
       (if usage_since s i \<noteq> None \<and> leaves s i = None then 1 else 0)"

definition inv_cust :: "state \<Rightarrow> bool" where
  "inv_cust s \<longleftrightarrow>
     (\<forall>i. ok_fields s i \<and> ok_init s i \<and> ok_putq s i \<and> ok_granted s i \<and> ok_service s i
        \<and> ok_users s i)"

text \<open>The resource and the statistics, by counting.\<close>

definition inv_res :: "config \<Rightarrow> state \<Rightarrow> bool" where
  "inv_res cfg s \<longleftrightarrow>
     (users s = [] \<or> int (length (users s)) \<le> CASHIERS cfg) \<and>
     (put_queue s \<noteq> [] \<longrightarrow>
        CASHIERS cfg \<le> int (length (users s)) + int (count_kind is_released (queue s))) \<and>
     length (users s) = count_kind is_grant (queue s) + count_kind is_service (queue s) \<and>
     spawned s = count_kind is_init (queue s) + length (put_queue s)
        + count_kind is_grant (queue s) + length (wait_times s) \<and>
     length (service_times s) = length (wait_times s) \<and>
     busy_time s = sum_list (service_times s) \<and>
     (\<forall>d\<in>set (service_times s). 0 \<le> d)"

text \<open>The sequence numbers of the scheduled events are distinct.\<close>

definition inv_eid :: "state \<Rightarrow> bool" where
  "inv_eid s \<longleftrightarrow>
     (\<forall>e\<in>set (queue s). eid e < next_eid s) \<and> distinct (map eid (queue s))"

text \<open>The generator \<^verbatim>\<open>setup\<close>: at most one of its events is scheduled, its timeout
  is due when all the delays drawn so far have elapsed.\<close>

definition inv_setup :: "config \<Rightarrow> state \<Rightarrow> bool" where
  "inv_setup cfg s \<longleftrightarrow>
     (npend (queue s) InitSetup = 0 \<or>
        (queue s = [Event 0 URGENT 0 InitSetup] \<and> spawned s = 0 \<and> delays s = [] \<and> now s = 0)) \<and>
     count_kind is_setup (queue s) \<le> 1 \<and>
     (\<forall>e\<in>set (queue s). kind e = SetupTimeout \<longrightarrow> time e = sum_list (delays s)) \<and>
     (count_kind is_setup (queue s) = 0 \<longrightarrow>
        sum_list (delays s) \<le> now s \<and> CUSTOMERS cfg \<le> int (spawned s)) \<and>
     length (delays s) = spawned s \<and>
     (\<forall>d\<in>set (delays s). 0 \<le> d) \<and>
     (0 < spawned s \<longrightarrow> int (spawned s) \<le> CUSTOMERS cfg)"

text \<open>
  Customers start in the order in which they were spawned: the start of a customer is
  the next event to run (it is \<open>URGENT\<close> and due now), so at most the customer spawned
  last has not yet arrived.
\<close>

definition inv_order :: "state \<Rightarrow> bool" where
  "inv_order s \<longleftrightarrow>
     (\<forall>i. i < spawned s \<and> arrive s i = None \<longrightarrow> Suc i = spawned s) \<and>
     (\<forall>x\<in>set (queue s). is_init (kind x) \<longrightarrow>
        (\<forall>y\<in>set (queue s). y \<noteq> x \<longrightarrow> key_less x y)) \<and>
     (\<forall>y\<in>set (queue s). \<not> is_init (kind y) \<and> kind y \<noteq> InitSetup \<longrightarrow> priority y = NORMAL)"

text \<open>Arrival times: not in the future, and in the order of the customers.\<close>

definition inv_arrivals :: "state \<Rightarrow> bool" where
  "inv_arrivals s \<longleftrightarrow>
     (\<forall>i a. arrive s i = Some a \<longrightarrow> a \<le> now s) \<and>
     (\<forall>i j ai aj. i < j \<longrightarrow> arrive s i = Some ai \<longrightarrow> arrive s j = Some aj \<longrightarrow> ai \<le> aj)"

text \<open>
  First come, first served: the waiting requests are queued in the order of the
  customers, a customer is granted a unit only after every earlier customer, and no
  earlier than it arrived.
\<close>

definition inv_grants :: "state \<Rightarrow> bool" where
  "inv_grants s \<longleftrightarrow>
     sorted_wrt (<) (put_queue s) \<and>
     (\<forall>i j. i < j \<longrightarrow> usage_since s j \<noteq> None \<longrightarrow> usage_since s i \<noteq> None) \<and>
     (\<forall>i g. usage_since s i = Some g \<longrightarrow> g \<le> now s) \<and>
     (\<forall>i j gi gj. i < j \<longrightarrow> usage_since s i = Some gi \<longrightarrow> usage_since s j = Some gj
        \<longrightarrow> gi \<le> gj) \<and>
     (\<forall>i a g. arrive s i = Some a \<longrightarrow> usage_since s i = Some g \<longrightarrow> a \<le> g)"

text \<open>
  The recorded waits: the grant event of a customer is due at the time of the grant,
  grants are resumed in the order of the customers, and entry \<open>i\<close> of \<open>wait_times\<close> and of
  \<open>service_times\<close> is the value customer \<open>i\<close> computed.
\<close>

definition inv_wait :: "state \<Rightarrow> bool" where
  "inv_wait s \<longleftrightarrow>
     (\<forall>e\<in>set (queue s). \<forall>i. kind e = Granted i \<longrightarrow> usage_since s i = Some (time e)) \<and>
     (\<forall>x\<in>set (queue s). \<forall>y\<in>set (queue s). \<forall>i j.
        kind x = Granted i \<and> kind y = Granted j \<and> i < j \<longrightarrow> key_less x y) \<and>
     (\<forall>i. wait s i \<noteq> None \<longleftrightarrow> i < length (wait_times s)) \<and>
     (\<forall>i<length (wait_times s). wait s i = Some (wait_times s ! i)) \<and>
     (\<forall>i w. wait s i = Some w \<longrightarrow>
        (\<exists>g a. usage_since s i = Some g \<and> arrive s i = Some a \<and> w = g - a)) \<and>
     (\<forall>i<length (service_times s). service_duration s i = Some (service_times s ! i))"

text \<open>Customer \<open>i\<close> starts, and arrives, when the first \<open>i\<close> delays have elapsed.\<close>

definition inv_delay :: "state \<Rightarrow> bool" where
  "inv_delay s \<longleftrightarrow>
     (\<forall>e\<in>set (queue s). \<forall>i. kind e = InitCustomer i \<longrightarrow>
        time e = sum_list (take i (delays s)) \<and> i < length (delays s)) \<and>
     (\<forall>i a. arrive s i = Some a \<longrightarrow> a = sum_list (take i (delays s)) \<and> i < length (delays s))"







subsection \<open>Busy time and elapsed time\<close>

text \<open>The service still to come: for each service timeout that is scheduled, the time
  until it is due.  The busy time recorded so far minus the service still to come is
  the service already delivered.\<close>

definition remaining :: "state \<Rightarrow> real" where
  "remaining s =
     sum_list (map (\<lambda>e. time e - now s) (filter (\<lambda>e. is_service (kind e)) (queue s)))"

definition inv_busy :: "config \<Rightarrow> state \<Rightarrow> bool" where
  "inv_busy cfg s \<longleftrightarrow> busy_time s - remaining s \<le> real_of_int (CASHIERS cfg) * now s"

text \<open>The departure times of the customers spawned (\<open>0\<close> for a customer that has not
  left) and the latest of them.\<close>

definition departures :: "state \<Rightarrow> real list" where
  "departures s = map (\<lambda>i. case leaves s i of None \<Rightarrow> 0 | Some l \<Rightarrow> l) [0..<spawned s]"

definition latest :: "state \<Rightarrow> real" where
  "latest s = foldr max (departures s) 0"

text \<open>A time \<open>b\<close> bounds the run when the generator's delays have elapsed by \<open>b\<close>, every
  customer gone has left by \<open>b\<close> and every service in progress ends by \<open>b\<close>.  Nothing
  happens after such a time.\<close>

definition bounds :: "state \<Rightarrow> real \<Rightarrow> bool" where
  "bounds s b \<longleftrightarrow>
     sum_list (delays s) \<le> b \<and>
     (\<forall>i l. leaves s i = Some l \<longrightarrow> l \<le> b) \<and>
     (\<forall>e\<in>set (queue s). is_service (kind e) \<longrightarrow> time e \<le> b)"

definition inv_elapsed :: "state \<Rightarrow> bool" where
  "inv_elapsed s \<longleftrightarrow> (\<forall>b. bounds s b \<longrightarrow> now s \<le> b \<and> (\<forall>e\<in>set (queue s). time e \<le> b))"





subsection \<open>Runs of the scheduler\<close>

text \<open>
  Modelled from the spec: section 4.1 requires of the scheduler only that the event
  executed next is one that no scheduled event precedes in the order
  \<open>(time, priority, eid)\<close>.  A run of the scheduler executes such events one after the
  other until none is left or a process raises; nothing else is fixed about the
  choice of the event, so two runs may a priori differ.
\<close>

definition is_next :: "event list \<Rightarrow> event \<Rightarrow> bool" where
  "is_next q e \<longleftrightarrow> e \<in> set q \<and> (\<forall>x\<in>set q. \<not> key_less x e)"

inductive sched_step :: "config \<Rightarrow> (nat \<Rightarrow> real) \<Rightarrow> state \<Rightarrow> error + state \<Rightarrow> bool"
  for cfg u where
  exec: "is_next (queue s) e \<Longrightarrow>
     sched_step cfg u s (dispatch cfg u (kind e) (s\<lparr>now := time e, queue := remove1 e (queue s)\<rparr>))"

code_pred sched_step .

inductive sched_run :: "config \<Rightarrow> (nat \<Rightarrow> real) \<Rightarrow> state \<Rightarrow> error + state \<Rightarrow> bool"
  for cfg u where
  idle: "queue s = [] \<Longrightarrow> sched_run cfg u s (Inr s)"
| fail: "sched_step cfg u s (Inl e) \<Longrightarrow> sched_run cfg u s (Inl e)"
| continue: "sched_step cfg u s (Inr s') \<Longrightarrow> sched_run cfg u s' r \<Longrightarrow> sched_run cfg u s r"

code_pred sched_run .

subsection \<open>A configuration with inverted service bounds\<close>

text \<open>The scenario with the two service bounds exchanged: the minimum is above the
  maximum.\<close>

definition inverted_config :: config where
  "inverted_config = \<lparr>RANDOM_SEED = 42, CUSTOMERS = 3, INTERVAL = 5,
     SERVICE_TIME = (7, 3), CASHIERS = 1\<rparr>"

subsection \<open>A run that the generator ends\<close>

text \<open>One cashier and one customer: the delay drawn after the customer is spawned is
  \<open>5\<close> and the service duration is \<open>3\<close>.\<close>

definition late_config :: config where
  "late_config = \<lparr>RANDOM_SEED = 42, CUSTOMERS = 1, INTERVAL = 5,
     SERVICE_TIME = (3, 7), CASHIERS = 1\<rparr>"

definition late_stream :: "nat \<Rightarrow> real" where
  "late_stream k = (if k = 0 then 1 - exp (- 1) else 0)"

section \<open>Properties\<close>

subsection \<open>Evaluating a run\<close>

lemmas handler_defs = setup_start_def setup_loop_def timeout_def schedule_def
  customer_arrive_def request_def trigger_put_def customer_serve_def
  customer_leave_def release_def

lemmas eval_defs = initial_def env_step_def heappop_def key_less_def handler_defs
  uniform_def mean_def

lemma expovariate_unit: "expovariate (1 / 5) (1 - exp (- (1 / 5))) = 1"
  by (simp add: expovariate_def)

lemma expovariate_zero: "expovariate l 0 = 0"
  by (simp add: expovariate_def)

subsection \<open>The event queue\<close>

lemma heap_min_in: "heap_min m es \<in> set (m # es)"
  by (induction es arbitrary: m) auto

lemma key_le_trans: "\<not> key_less b a \<Longrightarrow> \<not> key_less c b \<Longrightarrow> \<not> key_less c a"
  unfolding key_less_def by (auto simp: not_less) 

lemma heap_min_least: "x \<in> set (m # es) \<Longrightarrow> \<not> key_less x (heap_min m es)"
proof (induction es arbitrary: m x)
  case Nil
  then show ?case by (simp add: key_less_def)
next
  case (Cons e es)
  let ?m = "if key_less e m then e else m"
  have a: "\<not> key_less m ?m" "\<not> key_less e ?m"
    by (auto simp: key_less_def)
  have b: "\<not> key_less ?m (heap_min ?m es)"
    using Cons.IH[of ?m ?m] by simp
  from Cons.prems consider "x = m" | "x = e" | "x \<in> set es" by auto
  then show ?case
  proof cases
    case 1
    then show ?thesis using key_le_trans[OF b a(1)] by simp
  next
    case 2
    then show ?thesis using key_le_trans[OF b a(2)] by simp
  next
    case 3
    then show ?thesis using Cons.IH[of x ?m] by simp
  qed
qed

lemma heappop_Some:
  assumes "heappop q = Some (e, q')"
  shows "e \<in> set q" and "q' = remove1 e q" and "\<And>x. x \<in> set q \<Longrightarrow> \<not> key_less x e"
  using assms heap_min_in heap_min_least unfolding heappop_def
  by (auto split: list.splits)

lemma heappop_None [simp]: "heappop q = None \<longleftrightarrow> q = []"
  by (auto simp: heappop_def split: list.splits)

lemma key_time: "\<not> key_less x e \<Longrightarrow> time e \<le> time x"
  by (auto simp: key_less_def not_less)

lemma npend_Nil [simp]: "npend [] k = 0"
  by (simp add: npend_def)

lemma npend_Cons [simp]: "npend (e # q) k = (if kind e = k then 1 else 0) + npend q k"
  by (simp add: npend_def)

lemma npend_append [simp]: "npend (q @ q') k = npend q k + npend q' k"
  by (simp add: npend_def)

lemma npend_pos: "e \<in> set q \<Longrightarrow> 0 < npend q (kind e)"
  by (induction q) auto

lemma npend_remove1:
  "e \<in> set q \<Longrightarrow> npend (remove1 e q) k = npend q k - (if kind e = k then 1 else 0)"
proof (induction q)
  case Nil
  then show ?case by simp
next
  case (Cons a q)
  show ?case
  proof (cases "e = a")
    case True
    then show ?thesis by simp
  next
    case False
    then have "e \<in> set q" using Cons.prems by simp
    then show ?thesis using Cons.IH npend_pos[of e q] by auto
  qed
qed

lemma count_list_snoc [simp]: "count_list (xs @ [x]) y = count_list xs y + (if x = y then 1 else 0)"
  by (induction xs) auto

lemma count_list_remove1:
  "count_list (remove1 x xs) y = count_list xs y - (if x = y \<and> x \<in> set xs then 1 else 0)"
  by (induction xs) auto

lemma snoc_eq_Cons: "xs @ [x] = y # ys \<Longrightarrow> (xs = [] \<and> x = y \<and> ys = []) \<or> (\<exists>zs. xs = y # zs \<and> ys = zs @ [x])"
  by (cases xs) auto

lemma count_kind_Nil [simp]: "count_kind P [] = 0"
  by (simp add: count_kind_def)

lemma count_kind_Cons [simp]: "count_kind P (e # q) = (if P (kind e) then 1 else 0) + count_kind P q"
  by (simp add: count_kind_def)

lemma count_kind_append [simp]: "count_kind P (q @ q') = count_kind P q + count_kind P q'"
  by (simp add: count_kind_def)

lemma count_kind_pos: "e \<in> set q \<Longrightarrow> P (kind e) \<Longrightarrow> 0 < count_kind P q"
  by (induction q) auto

lemma count_kind_remove1:
  "e \<in> set q \<Longrightarrow> count_kind P (remove1 e q) = count_kind P q - (if P (kind e) then 1 else 0)"
proof (induction q)
  case Nil
  then show ?case by simp
next
  case (Cons a q)
  show ?case
  proof (cases "e = a")
    case True
    then show ?thesis by simp
  next
    case False
    then have "e \<in> set q" using Cons.prems by simp
    then show ?thesis using Cons.IH count_kind_pos[of e q P] by auto
  qed
qed

lemma count_kind_zero: "count_kind P q = 0 \<Longrightarrow> e \<in> set q \<Longrightarrow> \<not> P (kind e)"
  using count_kind_pos by fastforce

text \<open>The nine ways a step can succeed.\<close>

lemma env_step_cases [consumes 1, case_names spawn finish arrive_wait arrive_grant serve leave
    released_idle released_grant proc_done]:
  assumes "env_step cfg u s = Inr s'"
  obtains
    (spawn) e d where "e \<in> set (queue s)" "\<And>x. x \<in> set (queue s) \<Longrightarrow> \<not> key_less x e"
      "kind e = InitSetup \<and> 0 < CASHIERS cfg \<or> kind e = SetupTimeout"
      "int (spawned s) < CUSTOMERS cfg" "INTERVAL cfg \<noteq> 0"
      "d = expovariate (1 / INTERVAL cfg) (u (draws s))" "0 \<le> d"
      "s' = s\<lparr>now := time e,
              queue := remove1 e (queue s) @
                [Event (time e) URGENT (next_eid s) (InitCustomer (spawned s)),
                 Event (time e + d) NORMAL (Suc (next_eid s)) SetupTimeout],
              next_eid := Suc (Suc (next_eid s)),
              spawned := Suc (spawned s), draws := Suc (draws s),
              delays := delays s @ [d]\<rparr>"
  | (finish) e where "e \<in> set (queue s)" "\<And>x. x \<in> set (queue s) \<Longrightarrow> \<not> key_less x e"
      "kind e = InitSetup \<and> 0 < CASHIERS cfg \<or> kind e = SetupTimeout"
      "\<not> int (spawned s) < CUSTOMERS cfg"
      "s' = s\<lparr>now := time e,
              queue := remove1 e (queue s) @ [Event (time e) NORMAL (next_eid s) ProcessDone],
              next_eid := Suc (next_eid s)\<rparr>"
  | (arrive_wait) e i where "e \<in> set (queue s)" "\<And>x. x \<in> set (queue s) \<Longrightarrow> \<not> key_less x e"
      "kind e = InitCustomer i" "\<not> int (length (users s)) < CASHIERS cfg"
      "s' = s\<lparr>now := time e, queue := remove1 e (queue s),
              arrive := (arrive s)(i \<mapsto> time e), put_queue := put_queue s @ [i]\<rparr>"
  | (arrive_grant) e i h rest where "e \<in> set (queue s)"
      "\<And>x. x \<in> set (queue s) \<Longrightarrow> \<not> key_less x e"
      "kind e = InitCustomer i" "int (length (users s)) < CASHIERS cfg"
      "put_queue s @ [i] = h # rest"
      "s' = s\<lparr>now := time e,
              queue := remove1 e (queue s) @ [Event (time e) NORMAL (next_eid s) (Granted h)],
              next_eid := Suc (next_eid s),
              arrive := (arrive s)(i \<mapsto> time e),
              users := users s @ [h], usage_since := (usage_since s)(h \<mapsto> time e),
              put_queue := rest\<rparr>"
  | (serve) e i a d where "e \<in> set (queue s)" "\<And>x. x \<in> set (queue s) \<Longrightarrow> \<not> key_less x e"
      "kind e = Granted i" "arrive s i = Some a"
      "d = uniform (fst (SERVICE_TIME cfg)) (snd (SERVICE_TIME cfg)) (u (draws s))" "0 \<le> d"
      "s' = s\<lparr>now := time e,
              queue := remove1 e (queue s) @
                [Event (time e + d) NORMAL (next_eid s) (ServiceTimeout i)],
              next_eid := Suc (next_eid s),
              wait := (wait s)(i \<mapsto> time e - a),
              wait_times := wait_times s @ [time e - a],
              draws := Suc (draws s),
              service_duration := (service_duration s)(i \<mapsto> d),
              service_times := service_times s @ [d],
              busy_time := busy_time s + d\<rparr>"
  | (leave) e i where "e \<in> set (queue s)" "\<And>x. x \<in> set (queue s) \<Longrightarrow> \<not> key_less x e"
      "kind e = ServiceTimeout i"
      "s' = s\<lparr>now := time e,
              queue := remove1 e (queue s) @
                [Event (time e) NORMAL (next_eid s) (Released i),
                 Event (time e) NORMAL (Suc (next_eid s)) ProcessDone],
              next_eid := Suc (Suc (next_eid s)),
              leaves := (leaves s)(i \<mapsto> time e),
              users := remove1 i (users s)\<rparr>"
  | (released_idle) e i where "e \<in> set (queue s)"
      "\<And>x. x \<in> set (queue s) \<Longrightarrow> \<not> key_less x e"
      "kind e = Released i" "put_queue s = [] \<or> \<not> int (length (users s)) < CASHIERS cfg"
      "s' = s\<lparr>now := time e, queue := remove1 e (queue s)\<rparr>"
  | (released_grant) e i h rest where "e \<in> set (queue s)"
      "\<And>x. x \<in> set (queue s) \<Longrightarrow> \<not> key_less x e"
      "kind e = Released i" "int (length (users s)) < CASHIERS cfg"
      "put_queue s = h # rest"
      "s' = s\<lparr>now := time e,
              queue := remove1 e (queue s) @ [Event (time e) NORMAL (next_eid s) (Granted h)],
              next_eid := Suc (next_eid s),
              users := users s @ [h], usage_since := (usage_since s)(h \<mapsto> time e),
              put_queue := rest\<rparr>"
  | (proc_done) e where "e \<in> set (queue s)" "\<And>x. x \<in> set (queue s) \<Longrightarrow> \<not> key_less x e"
      "kind e = ProcessDone"
      "s' = s\<lparr>now := time e, queue := remove1 e (queue s)\<rparr>"
proof -
  from assms obtain e q where p: "heappop (queue s) = Some (e, q)"
    and d0: "dispatch cfg u (kind e) (s\<lparr>now := time e, queue := q\<rparr>) = Inr s'"
    unfolding env_step_def by (auto split: option.splits)
  have "e \<in> set (queue s) \<and> (\<forall>x\<in>set (queue s). \<not> key_less x e) \<and>
      dispatch cfg u (kind e) (s\<lparr>now := time e, queue := remove1 e (queue s)\<rparr>) = Inr s'"
    using heappop_Some[OF p] d0 by simp
  then have e: "e \<in> set (queue s)"
    and m: "\<And>x. x \<in> set (queue s) \<Longrightarrow> \<not> key_less x e"
    and d: "dispatch cfg u (kind e) (s\<lparr>now := time e, queue := remove1 e (queue s)\<rparr>) = Inr s'"
    by blast+
  show thesis
  proof (cases "kind e")
    case InitSetup
    then show ?thesis using d spawn[OF e m] finish[OF e m]
      by (auto simp: handler_defs split: if_splits)
  next
    case SetupTimeout
    then show ?thesis using d spawn[OF e m] finish[OF e m]
      by (auto simp: handler_defs split: if_splits)
  next
    case (InitCustomer i)
    then show ?thesis using d arrive_wait[OF e m] arrive_grant[OF e m]
      by (auto simp: handler_defs split: if_splits list.splits)
  next
    case (Granted i)
    then show ?thesis using d serve[OF e m]
      by (auto simp: handler_defs split: if_splits option.splits)
  next
    case (ServiceTimeout i)
    then show ?thesis using d leave[OF e m]
      by (auto simp: handler_defs)
  next
    case (Released i)
    then show ?thesis using d released_idle[OF e m] released_grant[OF e m]
      by (auto simp: handler_defs split: if_splits list.splits)
  next
    case ProcessDone
    then show ?thesis using d proc_done[OF e m]
      by (auto simp: handler_defs)
  qed
qed


subsection \<open>The phases of a customer\<close>

lemmas inv_cust_defs = ok_fields_def ok_init_def ok_putq_def ok_granted_def ok_service_def
  ok_users_def

lemma inv_cust_initial: "inv_cust initial"
  by (simp add: inv_cust_def inv_cust_defs initial_def schedule_def)

lemma inv_custD:
  assumes "inv_cust s"
  shows "ok_fields s i" "ok_init s i" "ok_putq s i" "ok_granted s i" "ok_service s i" "ok_users s i"
  using assms by (simp_all add: inv_cust_def)

lemma pend_init:
  assumes "inv_cust s" "e \<in> set (queue s)" "kind e = InitCustomer i"
  shows "i < spawned s \<and> arrive s i = None \<and> usage_since s i = None \<and> wait s i = None
     \<and> leaves s i = None"
proof -
  have "0 < npend (queue s) (InitCustomer i)" using npend_pos[OF assms(2)] assms(3) by simp
  then have "i < spawned s \<and> arrive s i = None"
    using inv_custD(2)[OF assms(1), of i] by (auto simp: ok_init_def split: if_splits)
  then show ?thesis using inv_custD(1)[OF assms(1), of i] by (auto simp: ok_fields_def)
qed

lemma pend_granted:
  assumes "inv_cust s" "e \<in> set (queue s)" "kind e = Granted i"
  shows "i < spawned s \<and> arrive s i \<noteq> None \<and> usage_since s i \<noteq> None \<and> wait s i = None
     \<and> leaves s i = None"
proof -
  have "0 < npend (queue s) (Granted i)" using npend_pos[OF assms(2)] assms(3) by simp
  then have "usage_since s i \<noteq> None \<and> wait s i = None"
    using inv_custD(4)[OF assms(1), of i] by (auto simp: ok_granted_def split: if_splits)
  then show ?thesis using inv_custD(1)[OF assms(1), of i] by (auto simp: ok_fields_def)
qed

lemma pend_service:
  assumes "inv_cust s" "e \<in> set (queue s)" "kind e = ServiceTimeout i"
  shows "i < spawned s \<and> arrive s i \<noteq> None \<and> usage_since s i \<noteq> None \<and> wait s i \<noteq> None
     \<and> leaves s i = None \<and> i \<in> set (users s)"
proof -
  have "0 < npend (queue s) (ServiceTimeout i)" using npend_pos[OF assms(2)] assms(3) by simp
  then have a: "wait s i \<noteq> None \<and> leaves s i = None"
    using inv_custD(5)[OF assms(1), of i] by (auto simp: ok_service_def split: if_splits)
  then have b: "i < spawned s \<and> arrive s i \<noteq> None \<and> usage_since s i \<noteq> None"
    using inv_custD(1)[OF assms(1), of i] by (auto simp: ok_fields_def)
  then have "count_list (users s) i = 1"
    using a inv_custD(6)[OF assms(1), of i] by (auto simp: ok_users_def)
  then have "i \<in> set (users s)"
    by (metis count_list_0_iff zero_neq_one)
  then show ?thesis using a b by simp
qed

lemma head_putq:
  assumes "inv_cust s" "put_queue s = h # rest"
  shows "h < spawned s \<and> arrive s h \<noteq> None \<and> usage_since s h = None \<and> wait s h = None
     \<and> leaves s h = None \<and> count_list rest h = 0"
proof -
  have c: "count_list (put_queue s) h = 1 + count_list rest h" using assms(2) by simp
  then have "arrive s h \<noteq> None \<and> usage_since s h = None \<and> count_list rest h = 0"
    using inv_custD(3)[OF assms(1), of h] by (auto simp: ok_putq_def split: if_splits)
  then show ?thesis using inv_custD(1)[OF assms(1), of h] by (auto simp: ok_fields_def)
qed

lemma fresh_cust:
  assumes "inv_cust s"
  shows "arrive s (spawned s) = None \<and> usage_since s (spawned s) = None \<and> wait s (spawned s) = None
     \<and> leaves s (spawned s) = None"
  using inv_custD(1)[OF assms(1), of "spawned s"] by (auto simp: ok_fields_def)



lemma ok_fields_step:
  assumes "inv_cust s" "env_step cfg u s = Inr s'"
  shows "ok_fields s' j"
  using assms(2)
proof (cases rule: env_step_cases)
  case (spawn e d)
  show ?thesis
    using inv_custD(1)[OF assms(1), of j] fresh_cust[OF assms(1)] spawn(3)
    by (auto simp: ok_fields_def spawn(8) npend_remove1[OF spawn(1)] split: if_splits)
next
  case (finish e)
  show ?thesis
    using inv_custD(1)[OF assms(1), of j] finish(3)
    by (auto simp: ok_fields_def finish(5) npend_remove1[OF finish(1)] split: if_splits)
next
  case (arrive_wait e i)
  show ?thesis
    using inv_custD(1)[OF assms(1), of j] pend_init[OF assms(1) arrive_wait(1,3)]
    by (auto simp: ok_fields_def arrive_wait(3,5) npend_remove1[OF arrive_wait(1)] split: if_splits)
next
  case (arrive_grant e i h rest)
  show ?thesis
  proof (cases "put_queue s")
    case Nil
    then have "h = i" "rest = []" using arrive_grant(5) by simp_all
    then show ?thesis
      using inv_custD(1)[OF assms(1), of j] pend_init[OF assms(1) arrive_grant(1,3)] Nil
      by (auto simp: ok_fields_def arrive_grant(3,6) npend_remove1[OF arrive_grant(1)] split: if_splits)
  next
    case (Cons h' zs)
    then have "h = h'" "rest = zs @ [i]" using arrive_grant(5) by simp_all
    then show ?thesis
      using inv_custD(1)[OF assms(1), of j] pend_init[OF assms(1) arrive_grant(1,3)]
        head_putq[OF assms(1) Cons] Cons
      by (auto simp: ok_fields_def arrive_grant(3,6) npend_remove1[OF arrive_grant(1)] split: if_splits)
  qed
next
  case (serve e i a d)
  show ?thesis
    using inv_custD(1)[OF assms(1), of j] pend_granted[OF assms(1) serve(1,3)]
    by (auto simp: ok_fields_def serve(3,7) npend_remove1[OF serve(1)] split: if_splits)
next
  case (leave e i)
  show ?thesis
    using inv_custD(1)[OF assms(1), of j] pend_service[OF assms(1) leave(1,3)]
    by (auto simp: ok_fields_def leave(3,4) npend_remove1[OF leave(1)] count_list_remove1 split: if_splits)
next
  case (released_idle e i)
  show ?thesis
    using inv_custD(1)[OF assms(1), of j]
    by (auto simp: ok_fields_def released_idle(3,5) npend_remove1[OF released_idle(1)] split: if_splits)
next
  case (released_grant e i h rest)
  show ?thesis
    using inv_custD(1)[OF assms(1), of j] head_putq[OF assms(1) released_grant(5)]
    by (auto simp: ok_fields_def released_grant(3,5,6) npend_remove1[OF released_grant(1)] split: if_splits)
next
  case (proc_done e)
  show ?thesis
    using inv_custD(1)[OF assms(1), of j]
    by (auto simp: ok_fields_def proc_done(3,4) npend_remove1[OF proc_done(1)] split: if_splits)
qed

lemma ok_init_step:
  assumes "inv_cust s" "env_step cfg u s = Inr s'"
  shows "ok_init s' j"
  using assms(2)
proof (cases rule: env_step_cases)
  case (spawn e d)
  show ?thesis
    using inv_custD(2)[OF assms(1), of j] fresh_cust[OF assms(1)] spawn(3)
    by (auto simp: ok_init_def spawn(8) npend_remove1[OF spawn(1)] split: if_splits)
next
  case (finish e)
  show ?thesis
    using inv_custD(2)[OF assms(1), of j] finish(3)
    by (auto simp: ok_init_def finish(5) npend_remove1[OF finish(1)] split: if_splits)
next
  case (arrive_wait e i)
  show ?thesis
    using inv_custD(2)[OF assms(1), of j] pend_init[OF assms(1) arrive_wait(1,3)]
    by (auto simp: ok_init_def arrive_wait(3,5) npend_remove1[OF arrive_wait(1)] split: if_splits)
next
  case (arrive_grant e i h rest)
  show ?thesis
  proof (cases "put_queue s")
    case Nil
    then have "h = i" "rest = []" using arrive_grant(5) by simp_all
    then show ?thesis
      using inv_custD(2)[OF assms(1), of j] pend_init[OF assms(1) arrive_grant(1,3)] Nil
      by (auto simp: ok_init_def arrive_grant(3,6) npend_remove1[OF arrive_grant(1)] split: if_splits)
  next
    case (Cons h' zs)
    then have "h = h'" "rest = zs @ [i]" using arrive_grant(5) by simp_all
    then show ?thesis
      using inv_custD(2)[OF assms(1), of j] pend_init[OF assms(1) arrive_grant(1,3)]
        head_putq[OF assms(1) Cons] Cons
      by (auto simp: ok_init_def arrive_grant(3,6) npend_remove1[OF arrive_grant(1)] split: if_splits)
  qed
next
  case (serve e i a d)
  show ?thesis
    using inv_custD(2)[OF assms(1), of j] pend_granted[OF assms(1) serve(1,3)]
    by (auto simp: ok_init_def serve(3,7) npend_remove1[OF serve(1)] split: if_splits)
next
  case (leave e i)
  show ?thesis
    using inv_custD(2)[OF assms(1), of j] pend_service[OF assms(1) leave(1,3)]
    by (auto simp: ok_init_def leave(3,4) npend_remove1[OF leave(1)] count_list_remove1 split: if_splits)
next
  case (released_idle e i)
  show ?thesis
    using inv_custD(2)[OF assms(1), of j]
    by (auto simp: ok_init_def released_idle(3,5) npend_remove1[OF released_idle(1)] split: if_splits)
next
  case (released_grant e i h rest)
  show ?thesis
    using inv_custD(2)[OF assms(1), of j] head_putq[OF assms(1) released_grant(5)]
    by (auto simp: ok_init_def released_grant(3,5,6) npend_remove1[OF released_grant(1)] split: if_splits)
next
  case (proc_done e)
  show ?thesis
    using inv_custD(2)[OF assms(1), of j]
    by (auto simp: ok_init_def proc_done(3,4) npend_remove1[OF proc_done(1)] split: if_splits)
qed

lemma ok_putq_step:
  assumes "inv_cust s" "env_step cfg u s = Inr s'"
  shows "ok_putq s' j"
  using assms(2)
proof (cases rule: env_step_cases)
  case (spawn e d)
  show ?thesis
    using inv_custD(3)[OF assms(1), of j] fresh_cust[OF assms(1)] spawn(3)
    by (auto simp: ok_putq_def spawn(8) npend_remove1[OF spawn(1)] split: if_splits)
next
  case (finish e)
  show ?thesis
    using inv_custD(3)[OF assms(1), of j] finish(3)
    by (auto simp: ok_putq_def finish(5) npend_remove1[OF finish(1)] split: if_splits)
next
  case (arrive_wait e i)
  show ?thesis
    using inv_custD(3)[OF assms(1), of j] pend_init[OF assms(1) arrive_wait(1,3)]
    by (auto simp: ok_putq_def arrive_wait(3,5) npend_remove1[OF arrive_wait(1)] split: if_splits)
next
  case (arrive_grant e i h rest)
  show ?thesis
  proof (cases "put_queue s")
    case Nil
    then have "h = i" "rest = []" using arrive_grant(5) by simp_all
    then show ?thesis
      using inv_custD(3)[OF assms(1), of j] pend_init[OF assms(1) arrive_grant(1,3)] Nil
      by (auto simp: ok_putq_def arrive_grant(3,6) npend_remove1[OF arrive_grant(1)] split: if_splits)
  next
    case (Cons h' zs)
    then have "h = h'" "rest = zs @ [i]" using arrive_grant(5) by simp_all
    then show ?thesis
      using inv_custD(3)[OF assms(1), of j] pend_init[OF assms(1) arrive_grant(1,3)]
        head_putq[OF assms(1) Cons] Cons
      by (auto simp: ok_putq_def arrive_grant(3,6) npend_remove1[OF arrive_grant(1)] split: if_splits)
  qed
next
  case (serve e i a d)
  show ?thesis
    using inv_custD(3)[OF assms(1), of j] pend_granted[OF assms(1) serve(1,3)]
    by (auto simp: ok_putq_def serve(3,7) npend_remove1[OF serve(1)] split: if_splits)
next
  case (leave e i)
  show ?thesis
    using inv_custD(3)[OF assms(1), of j] pend_service[OF assms(1) leave(1,3)]
    by (auto simp: ok_putq_def leave(3,4) npend_remove1[OF leave(1)] count_list_remove1 split: if_splits)
next
  case (released_idle e i)
  show ?thesis
    using inv_custD(3)[OF assms(1), of j]
    by (auto simp: ok_putq_def released_idle(3,5) npend_remove1[OF released_idle(1)] split: if_splits)
next
  case (released_grant e i h rest)
  show ?thesis
    using inv_custD(3)[OF assms(1), of j] head_putq[OF assms(1) released_grant(5)]
    by (auto simp: ok_putq_def released_grant(3,5,6) npend_remove1[OF released_grant(1)] split: if_splits)
next
  case (proc_done e)
  show ?thesis
    using inv_custD(3)[OF assms(1), of j]
    by (auto simp: ok_putq_def proc_done(3,4) npend_remove1[OF proc_done(1)] split: if_splits)
qed

lemma ok_granted_step:
  assumes "inv_cust s" "env_step cfg u s = Inr s'"
  shows "ok_granted s' j"
  using assms(2)
proof (cases rule: env_step_cases)
  case (spawn e d)
  show ?thesis
    using inv_custD(4)[OF assms(1), of j] fresh_cust[OF assms(1)] spawn(3)
    by (auto simp: ok_granted_def spawn(8) npend_remove1[OF spawn(1)] split: if_splits)
next
  case (finish e)
  show ?thesis
    using inv_custD(4)[OF assms(1), of j] finish(3)
    by (auto simp: ok_granted_def finish(5) npend_remove1[OF finish(1)] split: if_splits)
next
  case (arrive_wait e i)
  show ?thesis
    using inv_custD(4)[OF assms(1), of j] pend_init[OF assms(1) arrive_wait(1,3)]
    by (auto simp: ok_granted_def arrive_wait(3,5) npend_remove1[OF arrive_wait(1)] split: if_splits)
next
  case (arrive_grant e i h rest)
  show ?thesis
  proof (cases "put_queue s")
    case Nil
    then have "h = i" "rest = []" using arrive_grant(5) by simp_all
    then show ?thesis
      using inv_custD(4)[OF assms(1), of j] pend_init[OF assms(1) arrive_grant(1,3)] Nil
      by (auto simp: ok_granted_def arrive_grant(3,6) npend_remove1[OF arrive_grant(1)] split: if_splits)
  next
    case (Cons h' zs)
    then have "h = h'" "rest = zs @ [i]" using arrive_grant(5) by simp_all
    then show ?thesis
      using inv_custD(4)[OF assms(1), of j] pend_init[OF assms(1) arrive_grant(1,3)]
        head_putq[OF assms(1) Cons] Cons
      by (auto simp: ok_granted_def arrive_grant(3,6) npend_remove1[OF arrive_grant(1)] split: if_splits)
  qed
next
  case (serve e i a d)
  show ?thesis
    using inv_custD(4)[OF assms(1), of j] pend_granted[OF assms(1) serve(1,3)]
    by (auto simp: ok_granted_def serve(3,7) npend_remove1[OF serve(1)] split: if_splits)
next
  case (leave e i)
  show ?thesis
    using inv_custD(4)[OF assms(1), of j] pend_service[OF assms(1) leave(1,3)]
    by (auto simp: ok_granted_def leave(3,4) npend_remove1[OF leave(1)] count_list_remove1 split: if_splits)
next
  case (released_idle e i)
  show ?thesis
    using inv_custD(4)[OF assms(1), of j]
    by (auto simp: ok_granted_def released_idle(3,5) npend_remove1[OF released_idle(1)] split: if_splits)
next
  case (released_grant e i h rest)
  show ?thesis
    using inv_custD(4)[OF assms(1), of j] head_putq[OF assms(1) released_grant(5)]
    by (auto simp: ok_granted_def released_grant(3,5,6) npend_remove1[OF released_grant(1)] split: if_splits)
next
  case (proc_done e)
  show ?thesis
    using inv_custD(4)[OF assms(1), of j]
    by (auto simp: ok_granted_def proc_done(3,4) npend_remove1[OF proc_done(1)] split: if_splits)
qed

lemma ok_service_step:
  assumes "inv_cust s" "env_step cfg u s = Inr s'"
  shows "ok_service s' j"
  using assms(2)
proof (cases rule: env_step_cases)
  case (spawn e d)
  show ?thesis
    using inv_custD(5)[OF assms(1), of j] fresh_cust[OF assms(1)] spawn(3)
    by (auto simp: ok_service_def spawn(8) npend_remove1[OF spawn(1)] split: if_splits)
next
  case (finish e)
  show ?thesis
    using inv_custD(5)[OF assms(1), of j] finish(3)
    by (auto simp: ok_service_def finish(5) npend_remove1[OF finish(1)] split: if_splits)
next
  case (arrive_wait e i)
  show ?thesis
    using inv_custD(5)[OF assms(1), of j] pend_init[OF assms(1) arrive_wait(1,3)]
    by (auto simp: ok_service_def arrive_wait(3,5) npend_remove1[OF arrive_wait(1)] split: if_splits)
next
  case (arrive_grant e i h rest)
  show ?thesis
  proof (cases "put_queue s")
    case Nil
    then have "h = i" "rest = []" using arrive_grant(5) by simp_all
    then show ?thesis
      using inv_custD(5)[OF assms(1), of j] pend_init[OF assms(1) arrive_grant(1,3)] Nil
      by (auto simp: ok_service_def arrive_grant(3,6) npend_remove1[OF arrive_grant(1)] split: if_splits)
  next
    case (Cons h' zs)
    then have "h = h'" "rest = zs @ [i]" using arrive_grant(5) by simp_all
    then show ?thesis
      using inv_custD(5)[OF assms(1), of j] pend_init[OF assms(1) arrive_grant(1,3)]
        head_putq[OF assms(1) Cons] Cons
      by (auto simp: ok_service_def arrive_grant(3,6) npend_remove1[OF arrive_grant(1)] split: if_splits)
  qed
next
  case (serve e i a d)
  show ?thesis
    using inv_custD(5)[OF assms(1), of j] pend_granted[OF assms(1) serve(1,3)]
    by (auto simp: ok_service_def serve(3,7) npend_remove1[OF serve(1)] split: if_splits)
next
  case (leave e i)
  show ?thesis
    using inv_custD(5)[OF assms(1), of j] pend_service[OF assms(1) leave(1,3)]
    by (auto simp: ok_service_def leave(3,4) npend_remove1[OF leave(1)] count_list_remove1 split: if_splits)
next
  case (released_idle e i)
  show ?thesis
    using inv_custD(5)[OF assms(1), of j]
    by (auto simp: ok_service_def released_idle(3,5) npend_remove1[OF released_idle(1)] split: if_splits)
next
  case (released_grant e i h rest)
  show ?thesis
    using inv_custD(5)[OF assms(1), of j] head_putq[OF assms(1) released_grant(5)]
    by (auto simp: ok_service_def released_grant(3,5,6) npend_remove1[OF released_grant(1)] split: if_splits)
next
  case (proc_done e)
  show ?thesis
    using inv_custD(5)[OF assms(1), of j]
    by (auto simp: ok_service_def proc_done(3,4) npend_remove1[OF proc_done(1)] split: if_splits)
qed

lemma ok_users_step:
  assumes "inv_cust s" "env_step cfg u s = Inr s'"
  shows "ok_users s' j"
  using assms(2)
proof (cases rule: env_step_cases)
  case (spawn e d)
  show ?thesis
    using inv_custD(6)[OF assms(1), of j] fresh_cust[OF assms(1)] spawn(3)
    by (auto simp: ok_users_def spawn(8) npend_remove1[OF spawn(1)] split: if_splits)
next
  case (finish e)
  show ?thesis
    using inv_custD(6)[OF assms(1), of j] finish(3)
    by (auto simp: ok_users_def finish(5) npend_remove1[OF finish(1)] split: if_splits)
next
  case (arrive_wait e i)
  show ?thesis
    using inv_custD(6)[OF assms(1), of j] pend_init[OF assms(1) arrive_wait(1,3)]
    by (auto simp: ok_users_def arrive_wait(3,5) npend_remove1[OF arrive_wait(1)] split: if_splits)
next
  case (arrive_grant e i h rest)
  show ?thesis
  proof (cases "put_queue s")
    case Nil
    then have "h = i" "rest = []" using arrive_grant(5) by simp_all
    then show ?thesis
      using inv_custD(6)[OF assms(1), of j] pend_init[OF assms(1) arrive_grant(1,3)] Nil
      by (auto simp: ok_users_def arrive_grant(3,6) npend_remove1[OF arrive_grant(1)] split: if_splits)
  next
    case (Cons h' zs)
    then have "h = h'" "rest = zs @ [i]" using arrive_grant(5) by simp_all
    then show ?thesis
      using inv_custD(6)[OF assms(1), of j] pend_init[OF assms(1) arrive_grant(1,3)]
        head_putq[OF assms(1) Cons] Cons
      by (auto simp: ok_users_def arrive_grant(3,6) npend_remove1[OF arrive_grant(1)] split: if_splits)
  qed
next
  case (serve e i a d)
  show ?thesis
    using inv_custD(6)[OF assms(1), of j] pend_granted[OF assms(1) serve(1,3)]
    by (auto simp: ok_users_def serve(3,7) npend_remove1[OF serve(1)] split: if_splits)
next
  case (leave e i)
  show ?thesis
    using inv_custD(6)[OF assms(1), of j] pend_service[OF assms(1) leave(1,3)]
    by (auto simp: ok_users_def leave(3,4) npend_remove1[OF leave(1)] count_list_remove1 split: if_splits)
next
  case (released_idle e i)
  show ?thesis
    using inv_custD(6)[OF assms(1), of j]
    by (auto simp: ok_users_def released_idle(3,5) npend_remove1[OF released_idle(1)] split: if_splits)
next
  case (released_grant e i h rest)
  show ?thesis
    using inv_custD(6)[OF assms(1), of j] head_putq[OF assms(1) released_grant(5)]
    by (auto simp: ok_users_def released_grant(3,5,6) npend_remove1[OF released_grant(1)] split: if_splits)
next
  case (proc_done e)
  show ?thesis
    using inv_custD(6)[OF assms(1), of j]
    by (auto simp: ok_users_def proc_done(3,4) npend_remove1[OF proc_done(1)] split: if_splits)
qed

lemma inv_cust_step:
  assumes "inv_cust s" "env_step cfg u s = Inr s'"
  shows "inv_cust s'"
  by (simp add: inv_cust_def ok_fields_step[OF assms] ok_init_step[OF assms]
      ok_putq_step[OF assms] ok_granted_step[OF assms] ok_service_step[OF assms]
      ok_users_step[OF assms])

lemma reachable_inv_cust: "reachable cfg u s \<Longrightarrow> inv_cust s"
  by (induction rule: reachable.induct) (auto intro: inv_cust_initial inv_cust_step)


subsection \<open>The resource, by counting\<close>

lemma inv_res_initial: "inv_res cfg initial"
  by (simp add: inv_res_def initial_def schedule_def)

lemma snoc_eq_Cons_length: "xs @ [x] = y # ys \<Longrightarrow> length ys = length xs"
  by (metis length_append_singleton length_Cons nat.inject)

lemma inv_res_step:
  assumes "inv_res cfg s" "inv_cust s" "env_step cfg u s = Inr s'"
  shows "inv_res cfg s'"
  using assms(3)
proof (cases rule: env_step_cases)
  case (spawn e d)
  have k: "\<not> is_init (kind e)" "\<not> is_grant (kind e)" "\<not> is_service (kind e)"
    "\<not> is_released (kind e)"
    using spawn(3) by auto
  show ?thesis using assms(1)
    by (auto simp: inv_res_def spawn(8) count_kind_remove1[OF spawn(1)] k)
next
  case (finish e)
  have k: "\<not> is_init (kind e)" "\<not> is_grant (kind e)" "\<not> is_service (kind e)"
    "\<not> is_released (kind e)"
    using finish(3) by auto
  show ?thesis using assms(1)
    by (auto simp: inv_res_def finish(5) count_kind_remove1[OF finish(1)] k)
next
  case (arrive_wait e i)
  have p: "0 < count_kind is_init (queue s)"
    using count_kind_pos[OF arrive_wait(1), of is_init] arrive_wait(3) by simp
  show ?thesis using assms(1) p arrive_wait(4)
    by (auto simp: inv_res_def arrive_wait(3,5) count_kind_remove1[OF arrive_wait(1)])
next
  case (arrive_grant e i h rest)
  have p: "0 < count_kind is_init (queue s)"
    using count_kind_pos[OF arrive_grant(1), of is_init] arrive_grant(3) by simp
  show ?thesis using assms(1) p arrive_grant(4)
      snoc_eq_Cons_length[OF arrive_grant(5)]
    by (auto simp: inv_res_def arrive_grant(3,6) count_kind_remove1[OF arrive_grant(1)])
next
  case (serve e i a d)
  have p: "0 < count_kind is_grant (queue s)"
    using count_kind_pos[OF serve(1), of is_grant] serve(3) by simp
  show ?thesis using assms(1) p serve(6)
    by (auto simp: inv_res_def serve(3,7) count_kind_remove1[OF serve(1)])
next
  case (leave e i)
  have p: "0 < count_kind is_service (queue s)"
    using count_kind_pos[OF leave(1), of is_service] leave(3) by simp
  have "i \<in> set (users s)" using pend_service[OF assms(2) leave(1) leave(3)] by simp
  then show ?thesis using assms(1) p
    by (auto simp: inv_res_def leave(3,4) count_kind_remove1[OF leave(1)] length_remove1)
next
  case (released_idle e i)
  have p: "0 < count_kind is_released (queue s)"
    using count_kind_pos[OF released_idle(1), of is_released] released_idle(3) by simp
  show ?thesis using assms(1) p released_idle(4)
    by (auto simp: inv_res_def released_idle(3,5) count_kind_remove1[OF released_idle(1)])
next
  case (released_grant e i h rest)
  have p: "0 < count_kind is_released (queue s)"
    using count_kind_pos[OF released_grant(1), of is_released] released_grant(3) by simp
  show ?thesis using assms(1) p released_grant(4)
    by (auto simp: inv_res_def released_grant(3,5,6) count_kind_remove1[OF released_grant(1)])
next
  case (proc_done e)
  show ?thesis using assms(1)
    by (auto simp: inv_res_def proc_done(3,4) count_kind_remove1[OF proc_done(1)])
qed


lemma reachable_inv_res: "reachable cfg u s \<Longrightarrow> inv_res cfg s"
  by (induction rule: reachable.induct)
     (auto intro: inv_res_initial inv_res_step reachable_inv_cust)

subsection \<open>The clock\<close>

lemma inv_time_initial: "inv_time initial"
  by (simp add: inv_time_def initial_def schedule_def)

lemma step_now:
  assumes "env_step cfg u s = Inr s'"
  shows "\<exists>e\<in>set (queue s). now s' = time e \<and> (\<forall>x\<in>set (queue s). time e \<le> time x)"
  using assms by (cases rule: env_step_cases) (auto dest: key_time)

lemma inv_time_step:
  assumes "inv_time s" "env_step cfg u s = Inr s'"
  shows "inv_time s'"
proof -
  have r: "x \<in> set (queue s)" if "x \<in> set (remove1 e (queue s))" for x e
    using that by (meson notin_set_remove1)
  show ?thesis
    using assms(2)
  proof (cases rule: env_step_cases)
    case (spawn e d)
    show ?thesis using assms(1) spawn(1,7) key_time[OF spawn(2)]
      by (auto simp: inv_time_def spawn(8) dest!: r)
  next
    case (finish e)
    show ?thesis using assms(1) finish(1) key_time[OF finish(2)]
      by (auto simp: inv_time_def finish(5) dest!: r)
  next
    case (arrive_wait e i)
    show ?thesis using assms(1) arrive_wait(1) key_time[OF arrive_wait(2)]
      by (auto simp: inv_time_def arrive_wait(5) dest!: r)
  next
    case (arrive_grant e i h rest)
    show ?thesis using assms(1) arrive_grant(1) key_time[OF arrive_grant(2)]
      by (auto simp: inv_time_def arrive_grant(6) dest!: r)
  next
    case (serve e i a d)
    show ?thesis using assms(1) serve(1,6) key_time[OF serve(2)]
      by (auto simp: inv_time_def serve(7) dest!: r)
  next
    case (leave e i)
    show ?thesis using assms(1) leave(1) key_time[OF leave(2)]
      by (auto simp: inv_time_def leave(4) dest!: r)
  next
    case (released_idle e i)
    show ?thesis using assms(1) released_idle(1) key_time[OF released_idle(2)]
      by (auto simp: inv_time_def released_idle(5) dest!: r)
  next
    case (released_grant e i h rest)
    show ?thesis using assms(1) released_grant(1) key_time[OF released_grant(2)]
      by (auto simp: inv_time_def released_grant(6) dest!: r)
  next
    case (proc_done e)
    show ?thesis using assms(1) proc_done(1) key_time[OF proc_done(2)]
      by (auto simp: inv_time_def proc_done(4) dest!: r)
  qed
qed

lemma reachable_inv_time: "reachable cfg u s \<Longrightarrow> inv_time s"
  by (induction rule: reachable.induct) (auto intro: inv_time_initial inv_time_step)

lemma step_now_mono:
  assumes "inv_time s" "env_step cfg u s = Inr s'"
  shows "now s \<le> now s'"
  using step_now[OF assms(2)] assms(1) by (auto simp: inv_time_def)

subsection \<open>Sequence numbers\<close>

lemma in_remove1D: "x \<in> set (remove1 e q) \<Longrightarrow> x \<in> set q"
  by (meson notin_set_remove1)

lemma distinct_map_remove1: "distinct (map f q) \<Longrightarrow> distinct (map f (remove1 e q))"
proof (induction q)
  case Nil
  then show ?case by simp
next
  case (Cons a q)
  then show ?case by (auto dest: in_remove1D)
qed

lemma inv_eid_initial: "inv_eid initial"
  by (simp add: inv_eid_def initial_def schedule_def)

lemma inv_eid_step:
  assumes "inv_eid s" "env_step cfg u s = Inr s'"
  shows "inv_eid s'"
proof -
  have a: "\<forall>x\<in>set (remove1 e (queue s)). eid x < next_eid s" for e
    using assms(1) by (auto simp: inv_eid_def dest: in_remove1D)
  have b: "distinct (map eid (remove1 e (queue s)))" for e
    using assms(1) by (simp add: inv_eid_def distinct_map_remove1)
  show ?thesis
    using assms(2)
  proof (cases rule: env_step_cases)
    case (spawn e d)
    show ?thesis using a[of e] b[of e]
      by (auto simp: inv_eid_def spawn(8) less_Suc_eq)
  next
    case (finish e)
    show ?thesis using a[of e] b[of e]
      by (auto simp: inv_eid_def finish(5) less_Suc_eq)
  next
    case (arrive_wait e i)
    show ?thesis using a[of e] b[of e]
      by (auto simp: inv_eid_def arrive_wait(5))
  next
    case (arrive_grant e i h rest)
    show ?thesis using a[of e] b[of e]
      by (auto simp: inv_eid_def arrive_grant(6) less_Suc_eq)
  next
    case (serve e i a d)
    show ?thesis using a[of e] b[of e]
      by (auto simp: inv_eid_def serve(7) less_Suc_eq)
  next
    case (leave e i)
    show ?thesis using a[of e] b[of e]
      by (auto simp: inv_eid_def leave(4) less_Suc_eq)
  next
    case (released_idle e i)
    show ?thesis using a[of e] b[of e]
      by (auto simp: inv_eid_def released_idle(5))
  next
    case (released_grant e i h rest)
    show ?thesis using a[of e] b[of e]
      by (auto simp: inv_eid_def released_grant(6) less_Suc_eq)
  next
    case (proc_done e)
    show ?thesis using a[of e] b[of e]
      by (auto simp: inv_eid_def proc_done(4))
  qed
qed

lemma reachable_inv_eid: "reachable cfg u s \<Longrightarrow> inv_eid s"
  by (induction rule: reachable.induct) (auto intro: inv_eid_initial inv_eid_step)

subsection \<open>The generator\<close>

lemma inv_setup_initial: "inv_setup cfg initial"
  by (simp add: inv_setup_def initial_def schedule_def)

lemma count_kind_zeroD: "count_kind P q = 0 \<Longrightarrow> \<forall>e\<in>set q. \<not> P (kind e)"
  using count_kind_pos by fastforce

lemma setup_popped:
  assumes "inv_setup cfg s" "e \<in> set (queue s)" "is_setup (kind e)"
  shows "count_kind is_setup (remove1 e (queue s)) = 0"
    and "npend (remove1 e (queue s)) InitSetup = 0"
    and "\<forall>x\<in>set (remove1 e (queue s)). \<not> is_setup (kind x)"
    and "kind e = SetupTimeout \<Longrightarrow> time e = sum_list (delays s)"
    and "kind e = InitSetup \<Longrightarrow> time e = 0 \<and> delays s = [] \<and> spawned s = 0"
proof -
  have "0 < count_kind is_setup (queue s)"
    using count_kind_pos[OF assms(2), of is_setup] assms(3) by simp
  then have "count_kind is_setup (queue s) = 1"
    using assms(1) by (simp add: inv_setup_def)
  then show z: "count_kind is_setup (remove1 e (queue s)) = 0"
    using count_kind_remove1[OF assms(2), of is_setup] assms(3) by simp
  then show n: "\<forall>x\<in>set (remove1 e (queue s)). \<not> is_setup (kind x)"
    by (rule count_kind_zeroD)
  show "npend (remove1 e (queue s)) InitSetup = 0"
  proof (rule ccontr)
    assume "npend (remove1 e (queue s)) InitSetup \<noteq> 0"
    then obtain x where "x \<in> set (remove1 e (queue s))" "kind x = InitSetup"
      by (auto simp: npend_def filter_empty_conv)
    then show False using n by auto
  qed
  show "kind e = SetupTimeout \<Longrightarrow> time e = sum_list (delays s)"
    using assms(1,2) by (simp add: inv_setup_def)
  show "kind e = InitSetup \<Longrightarrow> time e = 0 \<and> delays s = [] \<and> spawned s = 0"
    using assms(1,2) npend_pos[OF assms(2)] by (auto simp: inv_setup_def)
qed

lemma inv_setup_other:
  assumes "inv_setup cfg s" "inv_time s" "e \<in> set (queue s)" "\<not> is_setup (kind e)"
    and q: "queue s' = remove1 e (queue s) @ new" "\<forall>x\<in>set new. \<not> is_setup (kind x)"
    and n: "now s' = time e" "delays s' = delays s" "spawned s' = spawned s"
  shows "inv_setup cfg s'"
proof -
  have a: "npend (queue s) InitSetup = 0"
  proof (rule ccontr)
    assume "npend (queue s) InitSetup \<noteq> 0"
    then have "queue s = [Event 0 URGENT 0 InitSetup]"
      using assms(1) by (auto simp: inv_setup_def)
    then show False using assms(3,4) by simp
  qed
  have b: "count_kind is_setup new = 0" "npend new InitSetup = 0"
    using q(2) by (auto simp: count_kind_def npend_def filter_empty_conv)
  have c: "kind x \<noteq> SetupTimeout" if "x \<in> set new" for x
    using q(2) that by auto
  have t: "now s \<le> time e"
    using assms(2,3) by (simp add: inv_time_def)
  show ?thesis
    using assms(1) a b c t
    by (auto simp: inv_setup_def q(1) n npend_remove1[OF assms(3)]
        count_kind_remove1[OF assms(3)] assms(4) dest: in_remove1D)
qed

lemma inv_setup_step:
  assumes "inv_setup cfg s" "inv_time s" "env_step cfg u s = Inr s'"
  shows "inv_setup cfg s'"
  using assms(3)
proof (cases rule: env_step_cases)
  case (spawn e d)
  have k: "is_setup (kind e)" using spawn(3) by auto
  note p = setup_popped[OF assms(1) spawn(1) k]
  have t: "time e = sum_list (delays s)"
    using p(4,5) spawn(3) by auto
  have l: "length (delays s) = spawned s" "\<forall>d\<in>set (delays s). 0 \<le> d"
    using assms(1) by (simp_all add: inv_setup_def)
  show ?thesis
    using p(1,2,3) t l spawn(4,7)
    by (auto simp: inv_setup_def spawn(8))
next
  case (finish e)
  have k: "is_setup (kind e)" using finish(3) by auto
  note p = setup_popped[OF assms(1) finish(1) k]
  have t: "time e = sum_list (delays s)"
    using p(4,5) finish(3) by auto
  have l: "length (delays s) = spawned s" "\<forall>d\<in>set (delays s). 0 \<le> d"
    "0 < spawned s \<longrightarrow> int (spawned s) \<le> CUSTOMERS cfg"
    using assms(1) by (simp_all add: inv_setup_def)
  show ?thesis
    using p(1,2,3) t l finish(4)
    by (auto simp: inv_setup_def finish(5))
next
  case (arrive_wait e i)
  show ?thesis
    by (rule inv_setup_other[OF assms(1,2) arrive_wait(1), where new = "[]"])
       (simp_all add: arrive_wait(3,5))
next
  case (arrive_grant e i h rest)
  show ?thesis
    by (rule inv_setup_other[OF assms(1,2) arrive_grant(1),
          where new = "[Event (time e) NORMAL (next_eid s) (Granted h)]"])
       (simp_all add: arrive_grant(3,6))
next
  case (serve e i a d)
  show ?thesis
    by (rule inv_setup_other[OF assms(1,2) serve(1),
          where new = "[Event (time e + d) NORMAL (next_eid s) (ServiceTimeout i)]"])
       (simp_all add: serve(3,7))
next
  case (leave e i)
  show ?thesis
    by (rule inv_setup_other[OF assms(1,2) leave(1),
          where new = "[Event (time e) NORMAL (next_eid s) (Released i),
                 Event (time e) NORMAL (Suc (next_eid s)) ProcessDone]"])
       (simp_all add: leave(3,4))
next
  case (released_idle e i)
  show ?thesis
    by (rule inv_setup_other[OF assms(1,2) released_idle(1), where new = "[]"])
       (simp_all add: released_idle(3,5))
next
  case (released_grant e i h rest)
  show ?thesis
    by (rule inv_setup_other[OF assms(1,2) released_grant(1),
          where new = "[Event (time e) NORMAL (next_eid s) (Granted h)]"])
       (simp_all add: released_grant(3,6))
next
  case (proc_done e)
  show ?thesis
    by (rule inv_setup_other[OF assms(1,2) proc_done(1), where new = "[]"])
       (simp_all add: proc_done(3,4))
qed

lemma reachable_inv_setup: "reachable cfg u s \<Longrightarrow> inv_setup cfg s"
  by (induction rule: reachable.induct)
     (auto intro: inv_setup_initial inv_setup_step reachable_inv_time)

subsection \<open>The order of arrival\<close>

lemma npend_posD: "0 < npend q k \<Longrightarrow> \<exists>x\<in>set q. kind x = k"
  by (induction q) (auto split: if_splits)

lemma inv_order_initial: "inv_order initial"
  by (simp add: inv_order_def initial_def schedule_def)

lemma key_less_asym: "key_less x y \<Longrightarrow> \<not> key_less y x"
  by (auto simp: key_less_def)

lemma init_is_next:
  assumes "inv_order s" "x \<in> set (queue s)" "is_init (kind x)"
    and "e \<in> set (queue s)" "\<And>y. y \<in> set (queue s) \<Longrightarrow> \<not> key_less y e"
  shows "e = x"
proof (rule ccontr)
  assume "e \<noteq> x"
  then have "key_less x e"
    using assms(1-4) by (auto simp: inv_order_def)
  then show False using assms(5)[OF assms(2)] by simp
qed

lemma no_init_left:
  assumes "inv_order s" "inv_cust s"
    and "e \<in> set (queue s)" "\<And>y. y \<in> set (queue s) \<Longrightarrow> \<not> key_less y e"
  shows "\<forall>y\<in>set (remove1 e (queue s)). \<not> is_init (kind y)"
proof (intro ballI notI)
  fix y assume y: "y \<in> set (remove1 e (queue s))" "is_init (kind y)"
  have "e = y"
    using init_is_next[OF assms(1) in_remove1D[OF y(1)] y(2) assms(3,4)] .
  obtain i where i: "kind e = InitCustomer i"
    using y(2) \<open>e = y\<close> by (cases "kind e") auto
  have "npend (queue s) (InitCustomer i) \<le> 1"
    using inv_custD(2)[OF assms(2), of i] by (simp add: ok_init_def)
  then have "npend (remove1 e (queue s)) (InitCustomer i) = 0"
    using npend_remove1[OF assms(3), of "InitCustomer i"] i by simp
  moreover have "0 < npend (remove1 e (queue s)) (kind y)"
    using y(1) by (rule npend_pos)
  ultimately show False using i \<open>e = y\<close> by simp
qed

lemma all_arrived:
  assumes "inv_order s" "inv_cust s"
    and "e \<in> set (queue s)" "\<And>y. y \<in> set (queue s) \<Longrightarrow> \<not> key_less y e"
    and "\<not> is_init (kind e)" "i < spawned s"
  shows "arrive s i \<noteq> None"
proof
  assume "arrive s i = None"
  then have "npend (queue s) (InitCustomer i) = 1"
    using inv_custD(2)[OF assms(2), of i] assms(6) by (simp add: ok_init_def)
  then obtain x where x: "x \<in> set (queue s)" "kind x = InitCustomer i"
    using npend_posD[of "queue s" "InitCustomer i"] by auto
  have "e = x"
    using init_is_next[OF assms(1) x(1) _ assms(3,4)] x(2) by simp
  then show False using assms(5) x(2) by simp
qed

lemma inv_order_other:
  assumes "inv_order s" "inv_cust s"
    and "e \<in> set (queue s)" "\<And>y. y \<in> set (queue s) \<Longrightarrow> \<not> key_less y e"
    and q: "queue s' = remove1 e (queue s) @ new"
      "\<forall>x\<in>set new. \<not> is_init (kind x) \<and> priority x = NORMAL"
    and n: "spawned s' = spawned s" "\<forall>i. arrive s i \<noteq> None \<longrightarrow> arrive s' i \<noteq> None"
  shows "inv_order s'"
proof -
  note z = no_init_left[OF assms(1-4)]
  have o1: "\<forall>i. i < spawned s \<and> arrive s i = None \<longrightarrow> Suc i = spawned s"
    and o3: "\<forall>y\<in>set (queue s). \<not> is_init (kind y) \<and> kind y \<noteq> InitSetup \<longrightarrow> priority y = NORMAL"
    using assms(1) by (simp_all add: inv_order_def)
  have a: "\<forall>i. i < spawned s' \<and> arrive s' i = None \<longrightarrow> Suc i = spawned s'"
  proof (intro allI impI)
    fix i assume i: "i < spawned s' \<and> arrive s' i = None"
    then have "arrive s i = None" using n(2) by (cases "arrive s i") auto
    then show "Suc i = spawned s'" using o1 i n(1) by simp
  qed
  have b: "\<forall>x\<in>set (queue s'). \<not> is_init (kind x)"
    using z q by auto
  have c: "\<forall>y\<in>set (queue s'). \<not> is_init (kind y) \<and> kind y \<noteq> InitSetup \<longrightarrow> priority y = NORMAL"
    using o3 q by (auto dest: in_remove1D)
  show ?thesis
    unfolding inv_order_def using a b c by blast
qed

lemma inv_order_step:
  assumes "inv_order s" "inv_cust s" "inv_setup cfg s" "env_step cfg u s = Inr s'"
  shows "inv_order s'"
  using assms(4)
proof (cases rule: env_step_cases)
  case (spawn e d)
  have k: "is_setup (kind e)" "\<not> is_init (kind e)" using spawn(3) by auto
  note z = no_init_left[OF assms(1,2) spawn(1,2)]
  note p = setup_popped(3)[OF assms(3) spawn(1) k(1)]
  have o3: "\<forall>y\<in>set (queue s). \<not> is_init (kind y) \<and> kind y \<noteq> InitSetup \<longrightarrow> priority y = NORMAL"
    using assms(1) by (simp add: inv_order_def)
  have r: "\<forall>y\<in>set (remove1 e (queue s)). priority y = NORMAL \<and> time e \<le> time y"
  proof
    fix y assume y: "y \<in> set (remove1 e (queue s))"
    have "\<not> is_init (kind y)" "kind y \<noteq> InitSetup"
      using z p y by auto
    then show "priority y = NORMAL \<and> time e \<le> time y"
      using o3 in_remove1D[OF y] key_time[OF spawn(2)] by auto
  qed
  have "\<forall>i<spawned s. arrive s i \<noteq> None"
    using all_arrived[OF assms(1,2) spawn(1,2) k(2)] by blast
  then have a: "\<forall>i. i < spawned s' \<and> arrive s' i = None \<longrightarrow> Suc i = spawned s'"
    by (auto simp: spawn(8) less_Suc_eq)
  have b: "\<forall>x\<in>set (queue s'). is_init (kind x) \<longrightarrow>
        (\<forall>y\<in>set (queue s'). y \<noteq> x \<longrightarrow> key_less x y)"
    using z r spawn(7) by (auto simp: spawn(8) key_less_def)
  have c: "\<forall>y\<in>set (queue s'). \<not> is_init (kind y) \<and> kind y \<noteq> InitSetup \<longrightarrow> priority y = NORMAL"
    using r by (auto simp: spawn(8))
  show ?thesis
    unfolding inv_order_def using a b c by blast
next
  case (finish e)
  show ?thesis
    by (rule inv_order_other[OF assms(1,2) finish(1,2),
          where new = "[Event (time e) NORMAL (next_eid s) ProcessDone]"])
       (simp_all add: finish(5))
next
  case (arrive_wait e i)
  show ?thesis
    by (rule inv_order_other[OF assms(1,2) arrive_wait(1,2), where new = "[]"])
       (simp_all add: arrive_wait(5))
next
  case (arrive_grant e i h rest)
  show ?thesis
    by (rule inv_order_other[OF assms(1,2) arrive_grant(1,2),
          where new = "[Event (time e) NORMAL (next_eid s) (Granted h)]"])
       (simp_all add: arrive_grant(6))
next
  case (serve e i a d)
  show ?thesis
    by (rule inv_order_other[OF assms(1,2) serve(1,2),
          where new = "[Event (time e + d) NORMAL (next_eid s) (ServiceTimeout i)]"])
       (simp_all add: serve(7))
next
  case (leave e i)
  show ?thesis
    by (rule inv_order_other[OF assms(1,2) leave(1,2),
          where new = "[Event (time e) NORMAL (next_eid s) (Released i),
                 Event (time e) NORMAL (Suc (next_eid s)) ProcessDone]"])
       (simp_all add: leave(4))
next
  case (released_idle e i)
  show ?thesis
    by (rule inv_order_other[OF assms(1,2) released_idle(1,2), where new = "[]"])
       (simp_all add: released_idle(5))
next
  case (released_grant e i h rest)
  show ?thesis
    by (rule inv_order_other[OF assms(1,2) released_grant(1,2),
          where new = "[Event (time e) NORMAL (next_eid s) (Granted h)]"])
       (simp_all add: released_grant(6))
next
  case (proc_done e)
  show ?thesis
    by (rule inv_order_other[OF assms(1,2) proc_done(1,2), where new = "[]"])
       (simp_all add: proc_done(4))
qed

lemma reachable_inv_order: "reachable cfg u s \<Longrightarrow> inv_order s"
  by (induction rule: reachable.induct)
     (auto intro: inv_order_initial inv_order_step reachable_inv_cust reachable_inv_setup)

subsection \<open>First come, first served\<close>

lemma putq_member:
  assumes "inv_cust s"
  shows "k \<in> set (put_queue s) \<longleftrightarrow> arrive s k \<noteq> None \<and> usage_since s k = None"
  using inv_custD(3)[OF assms, of k] count_list_0_iff[of "put_queue s" k]
  by (auto simp: ok_putq_def split: if_splits)

lemma arrived_below:
  assumes "inv_order s" "j < h" "h < spawned s"
  shows "arrive s j \<noteq> None"
proof
  assume "arrive s j = None"
  then have "Suc j = spawned s"
    using assms by (simp add: inv_order_def)
  then show False using assms(2,3) by simp
qed

text \<open>What is known when customer \<open>i\<close> starts.\<close>

lemma newcomer:
  assumes "inv_order s" "inv_cust s" "e \<in> set (queue s)" "kind e = InitCustomer i"
  shows "arrive s i = None" and "usage_since s i = None"
    and "\<forall>k. arrive s k \<noteq> None \<longrightarrow> k < i"
    and "\<forall>k. usage_since s k \<noteq> None \<longrightarrow> k < i"
    and "\<forall>k\<in>set (put_queue s). k < i"
    and "\<forall>k<i. arrive s k \<noteq> None"
proof -
  note f = pend_init[OF assms(2,3,4)]
  show a: "arrive s i = None" and "usage_since s i = None" using f by simp_all
  have n: "Suc i = spawned s"
    using assms(1) f by (simp add: inv_order_def)
  show b: "\<forall>k. arrive s k \<noteq> None \<longrightarrow> k < i"
  proof (intro allI impI)
    fix k assume k: "arrive s k \<noteq> None"
    then have "k < spawned s"
      using inv_custD(1)[OF assms(2), of k] by (simp add: ok_fields_def)
    moreover have "k \<noteq> i" using k a by auto
    ultimately show "k < i" using n by simp
  qed
  show "\<forall>k. usage_since s k \<noteq> None \<longrightarrow> k < i"
  proof (intro allI impI)
    fix k assume "usage_since s k \<noteq> None"
    then have "arrive s k \<noteq> None"
      using inv_custD(1)[OF assms(2), of k] by (simp add: ok_fields_def)
    then show "k < i" using b by simp
  qed
  show "\<forall>k\<in>set (put_queue s). k < i"
    using b putq_member[OF assms(2)] by simp
  show "\<forall>k<i. arrive s k \<noteq> None"
    using arrived_below[OF assms(1)] f by blast
qed

text \<open>What is known of the head of the queue of waiting requests.\<close>

lemma head_first:
  assumes "inv_order s" "inv_cust s" "inv_grants s" "put_queue s = h # zs"
  shows "usage_since s h = None" and "arrive s h \<noteq> None"
    and "\<forall>j<h. usage_since s j \<noteq> None"
    and "\<forall>j. usage_since s j \<noteq> None \<longrightarrow> j < h"
proof -
  note f = head_putq[OF assms(2,4)]
  show u: "usage_since s h = None" and "arrive s h \<noteq> None" using f by simp_all
  have srt: "\<forall>k\<in>set zs. h < k"
    using assms(3,4) by (simp add: inv_grants_def)
  show "\<forall>j<h. usage_since s j \<noteq> None"
  proof (intro allI impI notI)
    fix j assume j: "j < h" "usage_since s j = None"
    have "arrive s j \<noteq> None"
      using arrived_below[OF assms(1) j(1)] f by simp
    then have "j \<in> set (put_queue s)"
      using putq_member[OF assms(2), of j] j(2) by simp
    then show False using srt j(1) assms(4) by auto
  qed
  show "\<forall>j. usage_since s j \<noteq> None \<longrightarrow> j < h"
  proof (intro allI impI)
    fix j assume j: "usage_since s j \<noteq> None"
    have f3: "\<forall>i j. i < j \<longrightarrow> usage_since s j \<noteq> None \<longrightarrow> usage_since s i \<noteq> None"
      using assms(3) by (simp add: inv_grants_def)
    have "\<not> h < j"
      using f3 j u by blast
    moreover have "j \<noteq> h" using j u by auto
    ultimately show "j < h" by simp
  qed
qed

lemma inv_arrivals_initial: "inv_arrivals initial"
  by (simp add: inv_arrivals_def initial_def schedule_def)

lemma inv_arrivals_same:
  assumes "inv_arrivals s" "arrive s' = arrive s" "now s \<le> now s'"
  shows "inv_arrivals s'"
proof -
  have a: "\<forall>k a. arrive s k = Some a \<longrightarrow> a \<le> now s"
    and b: "\<forall>k j ak aj. k < j \<longrightarrow> arrive s k = Some ak \<longrightarrow> arrive s j = Some aj \<longrightarrow> ak \<le> aj"
    using assms(1) unfolding inv_arrivals_def by blast+
  show ?thesis
    unfolding inv_arrivals_def assms(2)
  proof (intro conjI allI impI)
    fix k a assume "arrive s k = Some a"
    then have "a \<le> now s" using a by blast
    then show "a \<le> now s'" using assms(3) by simp
  next
    fix k j ak aj
    assume "k < j" "arrive s k = Some ak" "arrive s j = Some aj"
    then show "ak \<le> aj" using b by blast
  qed
qed

lemma inv_arrivals_new:
  assumes "inv_arrivals s" "arrive s' = (arrive s)(i \<mapsto> now s')" "now s \<le> now s'"
    and "\<forall>k. arrive s k \<noteq> None \<longrightarrow> k < i"
  shows "inv_arrivals s'"
proof -
  have a0: "\<forall>k a. arrive s k = Some a \<longrightarrow> a \<le> now s"
    and b: "\<forall>k j ak aj. k < j \<longrightarrow> arrive s k = Some ak \<longrightarrow> arrive s j = Some aj \<longrightarrow> ak \<le> aj"
    using assms(1) unfolding inv_arrivals_def by blast+
  have a: "\<forall>k a. arrive s k = Some a \<longrightarrow> a \<le> now s'"
  proof (intro allI impI)
    fix k a assume "arrive s k = Some a"
    then have "a \<le> now s" using a0 by blast
    then show "a \<le> now s'" using assms(3) by simp
  qed
  show ?thesis
    unfolding inv_arrivals_def assms(2)
  proof (intro conjI allI impI)
    fix k a assume "((arrive s)(i \<mapsto> now s')) k = Some a"
    then show "a \<le> now s'" using a by (auto split: if_splits)
  next
    fix k j ak aj
    assume h: "k < j" "((arrive s)(i \<mapsto> now s')) k = Some ak"
      "((arrive s)(i \<mapsto> now s')) j = Some aj"
    show "ak \<le> aj"
    proof (cases "j = i")
      case True
      then show ?thesis using h a by (auto split: if_splits)
    next
      case False
      then have j: "arrive s j = Some aj" using h(3) by simp
      then have "j < i" using assms(4) by auto
      then have "k \<noteq> i" using h(1) by simp
      then show ?thesis using h j b by auto
    qed
  qed
qed

lemma inv_arrivals_step:
  assumes "inv_arrivals s" "inv_time s" "inv_cust s" "inv_order s" "env_step cfg u s = Inr s'"
  shows "inv_arrivals s'"
proof -
  have t: "\<forall>e\<in>set (queue s). now s \<le> time e"
    using assms(2) by (simp add: inv_time_def)
  show ?thesis
    using assms(5)
  proof (cases rule: env_step_cases)
    case (spawn e d)
    show ?thesis
      by (rule inv_arrivals_same[OF assms(1)]) (use t spawn(1) in \<open>simp_all add: spawn(8)\<close>)
  next
    case (finish e)
    show ?thesis
      by (rule inv_arrivals_same[OF assms(1)]) (use t finish(1) in \<open>simp_all add: finish(5)\<close>)
  next
    case (arrive_wait e i)
    show ?thesis
      by (rule inv_arrivals_new[OF assms(1), where i = i])
         (use t arrive_wait(1) newcomer(3)[OF assms(4,3) arrive_wait(1,3)]
           in \<open>simp_all add: arrive_wait(5)\<close>)
  next
    case (arrive_grant e i h rest)
    show ?thesis
      by (rule inv_arrivals_new[OF assms(1), where i = i])
         (use t arrive_grant(1) newcomer(3)[OF assms(4,3) arrive_grant(1,3)]
           in \<open>simp_all add: arrive_grant(6)\<close>)
  next
    case (serve e i a d)
    show ?thesis
      by (rule inv_arrivals_same[OF assms(1)]) (use t serve(1) in \<open>simp_all add: serve(7)\<close>)
  next
    case (leave e i)
    show ?thesis
      by (rule inv_arrivals_same[OF assms(1)]) (use t leave(1) in \<open>simp_all add: leave(4)\<close>)
  next
    case (released_idle e i)
    show ?thesis
      by (rule inv_arrivals_same[OF assms(1)])
         (use t released_idle(1) in \<open>simp_all add: released_idle(5)\<close>)
  next
    case (released_grant e i h rest)
    show ?thesis
      by (rule inv_arrivals_same[OF assms(1)])
         (use t released_grant(1) in \<open>simp_all add: released_grant(6)\<close>)
  next
    case (proc_done e)
    show ?thesis
      by (rule inv_arrivals_same[OF assms(1)])
         (use t proc_done(1) in \<open>simp_all add: proc_done(4)\<close>)
  qed
qed

lemma reachable_inv_arrivals: "reachable cfg u s \<Longrightarrow> inv_arrivals s"
  by (induction rule: reachable.induct)
     (auto intro: inv_arrivals_initial inv_arrivals_step reachable_inv_cust
        reachable_inv_time reachable_inv_order)

lemma inv_grants_initial: "inv_grants initial"
  by (simp add: inv_grants_def initial_def schedule_def)

lemma inv_grantsD:
  assumes "inv_grants s"
  shows "sorted_wrt (<) (put_queue s)"
    and "\<forall>i j. i < j \<longrightarrow> usage_since s j \<noteq> None \<longrightarrow> usage_since s i \<noteq> None"
    and "\<forall>i g. usage_since s i = Some g \<longrightarrow> g \<le> now s"
    and "\<forall>i j gi gj. i < j \<longrightarrow> usage_since s i = Some gi \<longrightarrow> usage_since s j = Some gj
        \<longrightarrow> gi \<le> gj"
    and "\<forall>i a g. arrive s i = Some a \<longrightarrow> usage_since s i = Some g \<longrightarrow> a \<le> g"
  using assms by (simp_all add: inv_grants_def)

lemma inv_grants_same:
  assumes "inv_grants s" "usage_since s' = usage_since s" "arrive s' = arrive s"
    "put_queue s' = put_queue s" "now s \<le> now s'"
  shows "inv_grants s'"
proof -
  note g = inv_grantsD[OF assms(1)]
  have b: "\<forall>i g. usage_since s i = Some g \<longrightarrow> g \<le> now s'"
  proof (intro allI impI)
    fix i g assume "usage_since s i = Some g"
    then have "g \<le> now s" using g(3) by blast
    then show "g \<le> now s'" using assms(5) by simp
  qed
  show ?thesis
    unfolding inv_grants_def assms(2,3,4) by (intro conjI g(1) g(2) b g(4) g(5))
qed

lemma inv_grants_wait:
  assumes "inv_grants s" "now s \<le> now s'" "usage_since s' = usage_since s"
    "put_queue s' = put_queue s @ [i]" "\<forall>k\<in>set (put_queue s). k < i"
    "arrive s' = (arrive s)(i \<mapsto> x)" "usage_since s i = None"
  shows "inv_grants s'"
proof -
  note g = inv_grantsD[OF assms(1)]
  have a: "sorted_wrt (<) (put_queue s @ [i])"
    using g(1) assms(5) by (simp add: sorted_wrt_append)
  have b: "\<forall>i g. usage_since s i = Some g \<longrightarrow> g \<le> now s'"
  proof (intro allI impI)
    fix i g assume "usage_since s i = Some g"
    then have "g \<le> now s" using g(3) by blast
    then show "g \<le> now s'" using assms(2) by simp
  qed
  have c: "\<forall>k a g. ((arrive s)(i \<mapsto> x)) k = Some a \<longrightarrow> usage_since s k = Some g \<longrightarrow> a \<le> g"
  proof (intro allI impI)
    fix k a g assume h: "((arrive s)(i \<mapsto> x)) k = Some a" "usage_since s k = Some g"
    then have "k \<noteq> i" using assms(7) by auto
    then show "a \<le> g" using h g(5) by auto
  qed
  show ?thesis
    unfolding inv_grants_def assms(3,4,6) by (intro conjI a g(2) b g(4) c)
qed

lemma inv_grants_grant:
  assumes "inv_grants s" "now s \<le> now s'"
    and us: "usage_since s' = (usage_since s)(h \<mapsto> now s')"
    and pq: "sorted_wrt (<) (put_queue s')"
    and h0: "usage_since s h = None"
    and below: "\<forall>j<h. usage_since s j \<noteq> None"
    and above: "\<forall>j. usage_since s j \<noteq> None \<longrightarrow> j < h"
    and ar: "\<forall>a. arrive s' h = Some a \<longrightarrow> a \<le> now s'"
      "\<forall>k a. k \<noteq> h \<longrightarrow> usage_since s k \<noteq> None \<longrightarrow> arrive s' k = Some a \<longrightarrow> arrive s k = Some a"
  shows "inv_grants s'"
proof -
  note g = inv_grantsD[OF assms(1)]
  have f3: "\<forall>i j. i < j \<longrightarrow> usage_since s' j \<noteq> None \<longrightarrow> usage_since s' i \<noteq> None"
  proof (intro allI impI)
    fix i j assume h: "i < j" "usage_since s' j \<noteq> None"
    have "j \<le> h"
    proof (cases "j = h")
      case False
      then have "usage_since s j \<noteq> None" using h(2) us by simp
      then show ?thesis using above by (simp add: less_imp_le)
    qed simp
    then have "i < h" using h(1) by simp
    then have "usage_since s i \<noteq> None" using below by simp
    then show "usage_since s' i \<noteq> None" using us by simp
  qed
  have f4: "\<forall>i g. usage_since s' i = Some g \<longrightarrow> g \<le> now s'"
  proof (intro allI impI)
    fix i g assume h: "usage_since s' i = Some g"
    show "g \<le> now s'"
    proof (cases "i = h")
      case True
      then show ?thesis using h us by simp
    next
      case False
      then have "usage_since s i = Some g" using h us by simp
      then have "g \<le> now s" using g(3) by blast
      then show ?thesis using assms(2) by simp
    qed
  qed
  have f5: "\<forall>i j gi gj. i < j \<longrightarrow> usage_since s' i = Some gi \<longrightarrow> usage_since s' j = Some gj
        \<longrightarrow> gi \<le> gj"
  proof (intro allI impI)
    fix i j gi gj
    assume h: "i < j" "usage_since s' i = Some gi" "usage_since s' j = Some gj"
    show "gi \<le> gj"
    proof (cases "j = h")
      case True
      then have "i \<noteq> h" "gj = now s'" using h us by simp_all
      moreover from this have "gi \<le> now s'" using f4 h(2) by blast
      ultimately show ?thesis by simp
    next
      case False
      then have j: "usage_since s j = Some gj" using h(3) us by simp
      then have "j < h" using above by simp
      then have "i \<noteq> h" using h(1) by simp
      then have "usage_since s i = Some gi" using h(2) us by simp
      then show ?thesis using g(4) h(1) j by blast
    qed
  qed
  have f8: "\<forall>i a g. arrive s' i = Some a \<longrightarrow> usage_since s' i = Some g \<longrightarrow> a \<le> g"
  proof (intro allI impI)
    fix i a g assume h: "arrive s' i = Some a" "usage_since s' i = Some g"
    show "a \<le> g"
    proof (cases "i = h")
      case True
      then have "g = now s'" using h(2) us by simp
      then show ?thesis using ar(1) h(1) True by simp
    next
      case False
      then have u: "usage_since s i = Some g" using h(2) us by simp
      then have "arrive s i = Some a" using ar(2) False h(1) by simp
      then show ?thesis using g(5) u by blast
    qed
  qed
  show ?thesis
    unfolding inv_grants_def by (intro conjI pq f3 f4 f5 f8)
qed

lemma inv_grants_step:
  assumes "inv_grants s" "inv_time s" "inv_cust s" "inv_order s" "inv_arrivals s"
    "env_step cfg u s = Inr s'"
  shows "inv_grants s'"
proof -
  have t: "\<forall>e\<in>set (queue s). now s \<le> time e"
    using assms(2) by (simp add: inv_time_def)
  have old: "\<forall>k a. arrive s k = Some a \<longrightarrow> a \<le> now s"
    using assms(5) by (simp add: inv_arrivals_def)
  note g = inv_grantsD[OF assms(1)]
  show ?thesis
    using assms(6)
  proof (cases rule: env_step_cases)
    case (spawn e d)
    show ?thesis
      by (rule inv_grants_same[OF assms(1)]) (use t spawn(1) in \<open>simp_all add: spawn(8)\<close>)
  next
    case (finish e)
    show ?thesis
      by (rule inv_grants_same[OF assms(1)]) (use t finish(1) in \<open>simp_all add: finish(5)\<close>)
  next
    case (arrive_wait e i)
    note n = newcomer[OF assms(4,3) arrive_wait(1,3)]
    show ?thesis
      by (rule inv_grants_wait[OF assms(1), where i = i and x = "time e"])
         (use t arrive_wait(1) n(2,5) in \<open>simp_all add: arrive_wait(5)\<close>)
  next
    case (arrive_grant e i h rest)
    note n = newcomer[OF assms(4,3) arrive_grant(1,3)]
    have le: "now s \<le> time e" using t arrive_grant(1) by simp
    show ?thesis
    proof (cases "put_queue s")
      case Nil
      then have hr: "h = i" "rest = []" using arrive_grant(5) by simp_all
      have below: "\<forall>j<i. usage_since s j \<noteq> None"
      proof (intro allI impI notI)
        fix j assume j: "j < i" "usage_since s j = None"
        then have "arrive s j \<noteq> None" using n(6) by simp
        then have "j \<in> set (put_queue s)" using putq_member[OF assms(3), of j] j(2) by simp
        then show False using Nil by simp
      qed
      show ?thesis
        by (rule inv_grants_grant[OF assms(1), where h = i])
           (use le n(2,4) below hr in \<open>simp_all add: arrive_grant(6)\<close>)
    next
      case (Cons h' zs)
      then have hr: "h = h'" "rest = zs @ [i]" using arrive_grant(5) by simp_all
      note f = head_first[OF assms(4,3,1) Cons]
      have hi: "h' \<noteq> i" using f(2) n(1) by auto
      have srt: "sorted_wrt (<) (zs @ [i])"
        using g(1) n(5) Cons by (simp add: sorted_wrt_append)
      have a1: "\<forall>a. arrive s h' = Some a \<longrightarrow> a \<le> time e"
      proof (intro allI impI)
        fix a assume "arrive s h' = Some a"
        then have "a \<le> now s" using old by blast
        then show "a \<le> time e" using le by simp
      qed
      have a2: "\<forall>k a. k \<noteq> h' \<longrightarrow> usage_since s k \<noteq> None \<longrightarrow>
          ((arrive s)(i \<mapsto> time e)) k = Some a \<longrightarrow> arrive s k = Some a"
        using n(2) by auto
      show ?thesis
        by (rule inv_grants_grant[OF assms(1), where h = h'])
           (use le f(1,3,4) hr hi srt a1 a2 in \<open>simp_all add: arrive_grant(6)\<close>)
    qed
  next
    case (serve e i a d)
    show ?thesis
      by (rule inv_grants_same[OF assms(1)]) (use t serve(1) in \<open>simp_all add: serve(7)\<close>)
  next
    case (leave e i)
    show ?thesis
      by (rule inv_grants_same[OF assms(1)]) (use t leave(1) in \<open>simp_all add: leave(4)\<close>)
  next
    case (released_idle e i)
    show ?thesis
      by (rule inv_grants_same[OF assms(1)])
         (use t released_idle(1) in \<open>simp_all add: released_idle(5)\<close>)
  next
    case (released_grant e i h rest)
    note f = head_first[OF assms(4,3,1) released_grant(5)]
    have le: "now s \<le> time e" using t released_grant(1) by simp
    have srt: "sorted_wrt (<) rest"
      using g(1) released_grant(5) by simp
    have a1: "\<forall>a. arrive s h = Some a \<longrightarrow> a \<le> time e"
    proof (intro allI impI)
      fix a assume "arrive s h = Some a"
      then have "a \<le> now s" using old by blast
      then show "a \<le> time e" using le by simp
    qed
    show ?thesis
      by (rule inv_grants_grant[OF assms(1), where h = h])
         (use le f(1,3,4) srt a1 in \<open>simp_all add: released_grant(6)\<close>)
  next
    case (proc_done e)
    show ?thesis
      by (rule inv_grants_same[OF assms(1)])
         (use t proc_done(1) in \<open>simp_all add: proc_done(4)\<close>)
  qed
qed

lemma reachable_inv_grants: "reachable cfg u s \<Longrightarrow> inv_grants s"
  by (induction rule: reachable.induct)
     (auto intro: inv_grants_initial inv_grants_step reachable_inv_cust
        reachable_inv_time reachable_inv_order reachable_inv_arrivals)

subsection \<open>The recorded waits\<close>

lemma inv_wait_initial: "inv_wait initial"
  by (simp add: inv_wait_def initial_def schedule_def)

lemma inv_waitD:
  assumes "inv_wait s"
  shows "\<forall>e\<in>set (queue s). \<forall>i. kind e = Granted i \<longrightarrow> usage_since s i = Some (time e)"
    and "\<forall>x\<in>set (queue s). \<forall>y\<in>set (queue s). \<forall>i j.
        kind x = Granted i \<and> kind y = Granted j \<and> i < j \<longrightarrow> key_less x y"
    and "\<forall>i. wait s i \<noteq> None \<longleftrightarrow> i < length (wait_times s)"
    and "\<forall>i<length (wait_times s). wait s i = Some (wait_times s ! i)"
    and "\<forall>i w. wait s i = Some w \<longrightarrow>
        (\<exists>g a. usage_since s i = Some g \<and> arrive s i = Some a \<and> w = g - a)"
    and "\<forall>i<length (service_times s). service_duration s i = Some (service_times s ! i)"
  using assms by (simp_all add: inv_wait_def)

lemma inv_wait_other:
  assumes "inv_wait s"
    and q: "queue s' = remove1 e (queue s) @ new" "\<forall>x\<in>set new. \<not> is_grant (kind x)"
    and f: "usage_since s' = usage_since s" "wait s' = wait s" "wait_times s' = wait_times s"
      "service_times s' = service_times s" "service_duration s' = service_duration s"
    and a: "\<forall>i a. arrive s i = Some a \<longrightarrow> arrive s' i = Some a"
  shows "inv_wait s'"
proof -
  note w = inv_waitD[OF assms(1)]
  have g: "x \<in> set (queue s)" if "x \<in> set (queue s')" "kind x = Granted i" for x i
    using that q by (auto dest: in_remove1D)
  have w1: "\<forall>e\<in>set (queue s'). \<forall>i. kind e = Granted i \<longrightarrow> usage_since s' i = Some (time e)"
    using w(1) g f(1) by auto
  have w2: "\<forall>x\<in>set (queue s'). \<forall>y\<in>set (queue s'). \<forall>i j.
        kind x = Granted i \<and> kind y = Granted j \<and> i < j \<longrightarrow> key_less x y"
  proof (intro ballI allI impI)
    fix x y i j
    assume h: "x \<in> set (queue s')" "y \<in> set (queue s')"
      "kind x = Granted i \<and> kind y = Granted j \<and> i < j"
    then have "x \<in> set (queue s)" "y \<in> set (queue s)" using g by blast+
    then show "key_less x y" using w(2) h(3) by blast
  qed
  have w5: "\<forall>i w. wait s' i = Some w \<longrightarrow>
        (\<exists>g a. usage_since s' i = Some g \<and> arrive s' i = Some a \<and> w = g - a)"
  proof (intro allI impI)
    fix i x assume "wait s' i = Some x"
    then obtain g b where "usage_since s i = Some g" "arrive s i = Some b" "x = g - b"
      using w(5) f(2) by fastforce
    then show "\<exists>g a. usage_since s' i = Some g \<and> arrive s' i = Some a \<and> x = g - a"
      using a f(1) by auto
  qed
  show ?thesis
    unfolding inv_wait_def
    by (intro conjI w1 w2 w5) (use w(3,4,6) in \<open>simp_all add: f\<close>)
qed

lemma inv_wait_grant:
  assumes "inv_wait s" "inv_grants s" "inv_eid s" "inv_order s" "inv_cust s"
    and e: "e \<in> set (queue s)" "now s \<le> t"
    and q: "queue s' = remove1 e (queue s) @ [Event t NORMAL (next_eid s) (Granted h)]"
    and us: "usage_since s' = (usage_since s)(h \<mapsto> t)"
    and h0: "usage_since s h = None"
    and above: "\<forall>j. usage_since s j \<noteq> None \<longrightarrow> j < h"
    and f: "wait s' = wait s" "wait_times s' = wait_times s"
      "service_times s' = service_times s" "service_duration s' = service_duration s"
    and a: "\<forall>i a. arrive s i = Some a \<longrightarrow> arrive s' i = Some a"
  shows "inv_wait s'"
proof -
  note w = inv_waitD[OF assms(1)]
  let ?x = "Event t NORMAL (next_eid s) (Granted h)"
  have old: "usage_since s i = Some (time y) \<and> i < h \<and> key_less y ?x"
    if "y \<in> set (remove1 e (queue s))" "kind y = Granted i" for y i
  proof -
    have y: "y \<in> set (queue s)" using that(1) by (rule in_remove1D)
    then have u: "usage_since s i = Some (time y)" using w(1) that(2) by blast
    then have "i < h" using above by simp
    have "time y \<le> now s"
      using u inv_grantsD(3)[OF assms(2)] by blast
    moreover have "priority y = NORMAL"
      using assms(4) y that(2) by (auto simp: inv_order_def)
    moreover have "eid y < next_eid s"
      using assms(3) y by (simp add: inv_eid_def)
    ultimately have "key_less y ?x"
      using e(2) by (auto simp: key_less_def)
    then show ?thesis using u \<open>i < h\<close> by simp
  qed
  have w1: "\<forall>e\<in>set (queue s'). \<forall>i. kind e = Granted i \<longrightarrow> usage_since s' i = Some (time e)"
  proof (intro ballI allI impI)
    fix y i assume h: "y \<in> set (queue s')" "kind y = Granted i"
    show "usage_since s' i = Some (time y)"
    proof (cases "y = ?x")
      case True
      then show ?thesis using h(2) us by simp
    next
      case False
      then have "y \<in> set (remove1 e (queue s))" using h(1) q by simp
      then have "usage_since s i = Some (time y) \<and> i < h" using old h(2) by blast
      then show ?thesis using us by simp
    qed
  qed
  have w2: "\<forall>x\<in>set (queue s'). \<forall>y\<in>set (queue s'). \<forall>i j.
        kind x = Granted i \<and> kind y = Granted j \<and> i < j \<longrightarrow> key_less x y"
  proof (intro ballI allI impI)
    fix x y i j
    assume h: "x \<in> set (queue s')" "y \<in> set (queue s')"
      "kind x = Granted i \<and> kind y = Granted j \<and> i < j"
    show "key_less x y"
    proof (cases "y = ?x")
      case True
      then have "j = h" using h(3) by simp
      then have "x \<noteq> ?x" using h(3) by auto
      then have "x \<in> set (remove1 e (queue s))" using h(1) q by simp
      then show ?thesis using old h(3) True by blast
    next
      case False
      then have y: "y \<in> set (remove1 e (queue s))" using h(2) q by simp
      then have "j < h" using old h(3) by blast
      then have "x \<noteq> ?x" using h(3) by auto
      then have "x \<in> set (remove1 e (queue s))" using h(1) q by simp
      then show ?thesis using w(2) h(3) y by (meson in_remove1D)
    qed
  qed
  have w5: "\<forall>i w. wait s' i = Some w \<longrightarrow>
        (\<exists>g a. usage_since s' i = Some g \<and> arrive s' i = Some a \<and> w = g - a)"
  proof (intro allI impI)
    fix i x assume "wait s' i = Some x"
    then obtain g b where g: "usage_since s i = Some g" "arrive s i = Some b" "x = g - b"
      using w(5) f(1) by fastforce
    then have "i \<noteq> h" using h0 by auto
    then show "\<exists>g a. usage_since s' i = Some g \<and> arrive s' i = Some a \<and> x = g - a"
      using a us g by auto
  qed
  show ?thesis
    unfolding inv_wait_def
    by (intro conjI w1 w2 w5) (use w(3,4,6) in \<open>simp_all add: f\<close>)
qed

text \<open>The customer resumed by a grant is the one whose wait is recorded next.\<close>

lemma next_served:
  assumes "inv_wait s" "inv_grants s" "inv_cust s"
    and "e \<in> set (queue s)" "\<And>y. y \<in> set (queue s) \<Longrightarrow> \<not> key_less y e"
    and "kind e = Granted i"
  shows "i = length (wait_times s)"
proof -
  note w = inv_waitD[OF assms(1)]
  note f = pend_granted[OF assms(3,4,6)]
  have a: "\<not> i < length (wait_times s)"
    using w(3) f by blast
  have "j < length (wait_times s)" if "j < i" for j
  proof (rule ccontr)
    assume "\<not> j < length (wait_times s)"
    then have n: "wait s j = None" using w(3) by blast
    have "usage_since s j \<noteq> None"
      using inv_grantsD(2)[OF assms(2)] that f by blast
    then have "npend (queue s) (Granted j) = 1"
      using inv_custD(4)[OF assms(3), of j] n by (simp add: ok_granted_def)
    then obtain y where y: "y \<in> set (queue s)" "kind y = Granted j"
      using npend_posD[of "queue s" "Granted j"] by auto
    then have "key_less y e"
      using w(2) assms(4,6) that by blast
    then show False using assms(5)[OF y(1)] by simp
  qed
  then have "\<not> length (wait_times s) < i"
    by (meson less_irrefl)
  then show ?thesis
    using a by simp
qed

lemma inv_wait_step:
  assumes "inv_wait s" "inv_grants s" "inv_eid s" "inv_order s" "inv_cust s" "inv_time s"
    "inv_res cfg s" "env_step cfg u s = Inr s'"
  shows "inv_wait s'"
proof -
  have t: "\<forall>e\<in>set (queue s). now s \<le> time e"
    using assms(6) by (simp add: inv_time_def)
  note w = inv_waitD[OF assms(1)]
  show ?thesis
    using assms(8)
  proof (cases rule: env_step_cases)
    case (spawn e d)
    show ?thesis
      by (rule inv_wait_other[OF assms(1), where e = e and new =
            "[Event (time e) URGENT (next_eid s) (InitCustomer (spawned s)),
              Event (time e + d) NORMAL (Suc (next_eid s)) SetupTimeout]"])
         (simp_all add: spawn(8))
  next
    case (finish e)
    show ?thesis
      by (rule inv_wait_other[OF assms(1), where e = e and new =
            "[Event (time e) NORMAL (next_eid s) ProcessDone]"])
         (simp_all add: finish(5))
  next
    case (arrive_wait e i)
    note n = newcomer[OF assms(4,5) arrive_wait(1,3)]
    show ?thesis
      by (rule inv_wait_other[OF assms(1), where e = e and new = "[]"])
         (use n(1) in \<open>auto simp: arrive_wait(5)\<close>)
  next
    case (arrive_grant e i h rest)
    note n = newcomer[OF assms(4,5) arrive_grant(1,3)]
    have le: "now s \<le> time e" using t arrive_grant(1) by simp
    have hh: "usage_since s h = None \<and> (\<forall>j. usage_since s j \<noteq> None \<longrightarrow> j < h)"
    proof (cases "put_queue s")
      case Nil
      then have "h = i" using arrive_grant(5) by simp
      then show ?thesis using n(2,4) by simp
    next
      case (Cons h' zs)
      then have "h = h'" using arrive_grant(5) by simp
      then show ?thesis using head_first(1,4)[OF assms(4,5,2) Cons] by simp
    qed
    show ?thesis
      by (rule inv_wait_grant[OF assms(1,2,3,4,5) arrive_grant(1) le, where h = h])
         (use hh n(1) in \<open>auto simp: arrive_grant(6)\<close>)
  next
    case (serve e i a d)
    have i: "i = length (wait_times s)"
      using next_served[OF assms(1,2,5) serve(1,2,3)] .
    have l: "length (service_times s) = length (wait_times s)"
      using assms(7) by (simp add: inv_res_def)
    have us: "usage_since s i = Some (time e)"
      using w(1) serve(1,3) by blast
    have g: "x \<in> set (queue s)" if "x \<in> set (queue s')" "kind x = Granted k" for x k
      using that by (auto simp: serve(7) dest: in_remove1D)
    have w1: "\<forall>e\<in>set (queue s'). \<forall>i. kind e = Granted i \<longrightarrow> usage_since s' i = Some (time e)"
    proof (intro ballI allI impI)
      fix y k assume "y \<in> set (queue s')" "kind y = Granted k"
      then have "usage_since s k = Some (time y)" using g w(1) by blast
      then show "usage_since s' k = Some (time y)" by (simp add: serve(7))
    qed
    have w2: "\<forall>x\<in>set (queue s'). \<forall>y\<in>set (queue s'). \<forall>i j.
        kind x = Granted i \<and> kind y = Granted j \<and> i < j \<longrightarrow> key_less x y"
    proof (intro ballI allI impI)
      fix x y k j
      assume h: "x \<in> set (queue s')" "y \<in> set (queue s')"
        "kind x = Granted k \<and> kind y = Granted j \<and> k < j"
      then have "x \<in> set (queue s)" "y \<in> set (queue s)" using g by blast+
      then show "key_less x y" using w(2) h(3) by blast
    qed
    have w3: "\<forall>k. wait s' k \<noteq> None \<longleftrightarrow> k < length (wait_times s')"
      using w(3) i by (auto simp: serve(7) less_Suc_eq)
    have w4: "\<forall>k<length (wait_times s'). wait s' k = Some (wait_times s' ! k)"
      using w(4) i by (auto simp: serve(7) less_Suc_eq nth_append)
    have w5: "\<forall>k w. wait s' k = Some w \<longrightarrow>
        (\<exists>g a. usage_since s' k = Some g \<and> arrive s' k = Some a \<and> w = g - a)"
      using w(5) us serve(4) by (auto simp: serve(7))
    have w6: "\<forall>k<length (service_times s'). service_duration s' k = Some (service_times s' ! k)"
      using w(6) i l by (auto simp: serve(7) less_Suc_eq nth_append)
    show ?thesis
      unfolding inv_wait_def by (intro conjI w1 w2 w3 w4 w5 w6)
  next
    case (leave e i)
    show ?thesis
      by (rule inv_wait_other[OF assms(1), where e = e and new =
            "[Event (time e) NORMAL (next_eid s) (Released i),
              Event (time e) NORMAL (Suc (next_eid s)) ProcessDone]"])
         (simp_all add: leave(4))
  next
    case (released_idle e i)
    show ?thesis
      by (rule inv_wait_other[OF assms(1), where e = e and new = "[]"])
         (simp_all add: released_idle(5))
  next
    case (released_grant e i h rest)
    have le: "now s \<le> time e" using t released_grant(1) by simp
    note f = head_first(1,4)[OF assms(4,5,2) released_grant(5)]
    show ?thesis
      by (rule inv_wait_grant[OF assms(1,2,3,4,5) released_grant(1) le, where h = h])
         (use f in \<open>auto simp: released_grant(6)\<close>)
  next
    case (proc_done e)
    show ?thesis
      by (rule inv_wait_other[OF assms(1), where e = e and new = "[]"])
         (simp_all add: proc_done(4))
  qed
qed

lemma reachable_inv_wait: "reachable cfg u s \<Longrightarrow> inv_wait s"
  by (induction rule: reachable.induct)
     (auto intro: inv_wait_initial inv_wait_step reachable_inv_cust reachable_inv_time
        reachable_inv_order reachable_inv_grants reachable_inv_eid reachable_inv_res)

subsection \<open>Arrival times and delays\<close>

lemma inv_delay_initial: "inv_delay initial"
  by (simp add: inv_delay_def initial_def schedule_def)

lemma inv_delay_other:
  assumes "inv_delay s"
    and q: "queue s' = remove1 e (queue s) @ new" "\<forall>x\<in>set new. \<not> is_init (kind x)"
    and f: "arrive s' = arrive s" "delays s' = delays s"
  shows "inv_delay s'"
proof -
  have g: "x \<in> set (queue s)" if "x \<in> set (queue s')" "kind x = InitCustomer i" for x i
    using that q by (auto dest: in_remove1D)
  show ?thesis
    using assms(1) g unfolding inv_delay_def f by blast
qed

lemma inv_delay_arrive:
  assumes "inv_delay s" "e \<in> set (queue s)" "kind e = InitCustomer i"
    and q: "queue s' = remove1 e (queue s) @ new" "\<forall>x\<in>set new. \<not> is_init (kind x)"
    and f: "arrive s' = (arrive s)(i \<mapsto> time e)" "delays s' = delays s"
  shows "inv_delay s'"
proof -
  have g: "x \<in> set (queue s)" if "x \<in> set (queue s')" "kind x = InitCustomer i" for x i
    using that q by (auto dest: in_remove1D)
  have d1: "\<forall>e\<in>set (queue s). \<forall>i. kind e = InitCustomer i \<longrightarrow>
        time e = sum_list (take i (delays s)) \<and> i < length (delays s)"
    and d2: "\<forall>i a. arrive s i = Some a \<longrightarrow> a = sum_list (take i (delays s)) \<and> i < length (delays s)"
    using assms(1) by (simp_all add: inv_delay_def)
  have a: "\<forall>e\<in>set (queue s'). \<forall>i. kind e = InitCustomer i \<longrightarrow>
        time e = sum_list (take i (delays s)) \<and> i < length (delays s)"
    using d1 g by blast
  have "time e = sum_list (take i (delays s)) \<and> i < length (delays s)"
    using d1 assms(2,3) by blast
  then have b: "\<forall>k a. ((arrive s)(i \<mapsto> time e)) k = Some a \<longrightarrow>
      a = sum_list (take k (delays s)) \<and> k < length (delays s)"
    using d2 by auto
  show ?thesis
    unfolding inv_delay_def f by (intro conjI a b)
qed

lemma inv_delay_step:
  assumes "inv_delay s" "inv_setup cfg s" "env_step cfg u s = Inr s'"
  shows "inv_delay s'"
  using assms(3)
proof (cases rule: env_step_cases)
  case (spawn e d)
  have k: "is_setup (kind e)" using spawn(3) by auto
  note p = setup_popped[OF assms(2) spawn(1) k]
  have t: "time e = sum_list (delays s)"
    using p(4,5) spawn(3) by auto
  have l: "length (delays s) = spawned s"
    using assms(2) by (simp add: inv_setup_def)
  have d1: "\<forall>e\<in>set (queue s). \<forall>i. kind e = InitCustomer i \<longrightarrow>
        time e = sum_list (take i (delays s)) \<and> i < length (delays s)"
    and d2: "\<forall>i a. arrive s i = Some a \<longrightarrow> a = sum_list (take i (delays s)) \<and> i < length (delays s)"
    using assms(1) by (simp_all add: inv_delay_def)
  have a: "\<forall>x\<in>set (queue s'). \<forall>i. kind x = InitCustomer i \<longrightarrow>
        time x = sum_list (take i (delays s')) \<and> i < length (delays s')"
  proof (intro ballI allI impI)
    fix x i assume h: "x \<in> set (queue s')" "kind x = InitCustomer i"
    show "time x = sum_list (take i (delays s')) \<and> i < length (delays s')"
    proof (cases "x \<in> set (remove1 e (queue s))")
      case True
      then have "x \<in> set (queue s)" by (rule in_remove1D)
      then have "time x = sum_list (take i (delays s)) \<and> i < length (delays s)"
        using d1[rule_format, OF _ h(2)] by simp
      then show ?thesis by (simp add: spawn(8))
    next
      case False
      then have "x = Event (time e) URGENT (next_eid s) (InitCustomer (spawned s))"
        using h by (auto simp: spawn(8))
      then show ?thesis using h(2) t l by (simp add: spawn(8))
    qed
  qed
  have b: "\<forall>i a. arrive s' i = Some a \<longrightarrow>
      a = sum_list (take i (delays s')) \<and> i < length (delays s')"
  proof (intro allI impI)
    fix i a assume "arrive s' i = Some a"
    then have "a = sum_list (take i (delays s)) \<and> i < length (delays s)"
      using d2 by (simp add: spawn(8))
    then show "a = sum_list (take i (delays s')) \<and> i < length (delays s')"
      by (simp add: spawn(8))
  qed
  show ?thesis
    unfolding inv_delay_def by (intro conjI a b)
next
  case (finish e)
  show ?thesis
    by (rule inv_delay_other[OF assms(1), where e = e and new =
          "[Event (time e) NORMAL (next_eid s) ProcessDone]"])
       (simp_all add: finish(5))
next
  case (arrive_wait e i)
  show ?thesis
    by (rule inv_delay_arrive[OF assms(1) arrive_wait(1,3), where new = "[]"])
       (simp_all add: arrive_wait(5))
next
  case (arrive_grant e i h rest)
  show ?thesis
    by (rule inv_delay_arrive[OF assms(1) arrive_grant(1,3), where new =
          "[Event (time e) NORMAL (next_eid s) (Granted h)]"])
       (simp_all add: arrive_grant(6))
next
  case (serve e i a d)
  show ?thesis
    by (rule inv_delay_other[OF assms(1), where e = e and new =
          "[Event (time e + d) NORMAL (next_eid s) (ServiceTimeout i)]"])
       (simp_all add: serve(7))
next
  case (leave e i)
  show ?thesis
    by (rule inv_delay_other[OF assms(1), where e = e and new =
          "[Event (time e) NORMAL (next_eid s) (Released i),
            Event (time e) NORMAL (Suc (next_eid s)) ProcessDone]"])
       (simp_all add: leave(4))
next
  case (released_idle e i)
  show ?thesis
    by (rule inv_delay_other[OF assms(1), where e = e and new = "[]"])
       (simp_all add: released_idle(5))
next
  case (released_grant e i h rest)
  show ?thesis
    by (rule inv_delay_other[OF assms(1), where e = e and new =
          "[Event (time e) NORMAL (next_eid s) (Granted h)]"])
       (simp_all add: released_grant(6))
next
  case (proc_done e)
  show ?thesis
    by (rule inv_delay_other[OF assms(1), where e = e and new = "[]"])
       (simp_all add: proc_done(4))
qed

lemma reachable_inv_delay: "reachable cfg u s \<Longrightarrow> inv_delay s"
  by (induction rule: reachable.induct)
     (auto intro: inv_delay_initial inv_delay_step reachable_inv_setup)

subsection \<open>Complete runs\<close>

lemma dispatch_not_empty: "dispatch cfg u k s \<noteq> Inl EmptySchedule"
  by (cases k) (auto simp: handler_defs split: option.splits)

lemma env_step_empty: "env_step cfg u s = Inl EmptySchedule \<longleftrightarrow> queue s = []"
proof
  assume "env_step cfg u s = Inl EmptySchedule"
  then show "queue s = []"
    by (cases "heappop (queue s)") (auto simp: env_step_def dispatch_not_empty)
next
  assume "queue s = []"
  then show "env_step cfg u s = Inl EmptySchedule"
    by (simp add: env_step_def heappop_def)
qed

lemma env_run_reachable:
  "reachable cfg u s \<Longrightarrow> env_run cfg u s = Inr s' \<Longrightarrow> reachable cfg u s' \<and> queue s' = []"
proof (induction cfg u s rule: env_run.induct)
  case (1 cfg u s)
  show ?case
  proof (cases "env_step cfg u s")
    case (Inl e)
    then have "e = EmptySchedule" "s' = s"
      using "1.prems"(2) by (auto simp: env_run.simps[of cfg u s] split: if_splits)
    then show ?thesis
      using Inl "1.prems"(1) env_step_empty by blast
  next
    case (Inr s1)
    then have "env_run cfg u s1 = Inr s'"
      using "1.prems"(2) by (simp add: env_run.simps[of cfg u s])
    then show ?thesis
      using "1.IH"[OF Inr reachable.step[OF "1.prems"(1) Inr]] by simp
  qed
qed

lemma env_run_initial:
  "env_run cfg u initial = Inr s \<Longrightarrow> reachable cfg u s \<and> queue s = []"
  using env_run_reachable[OF reachable.start] .

lemma reachable_steps:
  "reachable cfg u s \<Longrightarrow> env_steps cfg u n s = Inr s' \<Longrightarrow> reachable cfg u s'"
proof (induction n arbitrary: s)
  case 0
  then show ?case by simp
next
  case (Suc n)
  from Suc.prems(2) obtain s1 where a: "env_step cfg u s = Inr s1"
    and b: "env_steps cfg u n s1 = Inr s'"
    by (auto split: sum.splits)
  show ?case
    using Suc.IH[OF reachable.step[OF Suc.prems(1) a] b] .
qed

text \<open>The run of the scenario, evaluated.\<close>

lemma scenario_final:
  "\<exists>s. env_run scenario_config scenario_stream initial = Inr s \<and>
     wait_times s = [0, 2, 4] \<and> service_times s = [3, 3, 3] \<and> now s = 9 \<and>
     busy_time s = 9 \<and> delays s = [1, 1, 0] \<and> users s = [] \<and> put_queue s = [] \<and>
     arrive s 0 = Some 0 \<and> arrive s 1 = Some 1 \<and> arrive s 2 = Some 2 \<and>
     usage_since s 0 = Some 0 \<and> usage_since s 1 = Some 3 \<and> usage_since s 2 = Some 6 \<and>
     leaves s 0 = Some 3 \<and> leaves s 1 = Some 6 \<and> leaves s 2 = Some 9"
  by (simp add: scenario_config_def scenario_stream_def
        env_run.simps eval_defs expovariate_unit expovariate_zero)

subsection \<open>The end of a run\<close>

text \<open>When no event is left, every customer that was spawned has gone through all its
  phases, and the generator has spawned all its customers.\<close>

lemma final_state:
  assumes "reachable cfg u s" "queue s = []" "0 < CASHIERS cfg"
  shows "users s = []" and "put_queue s = []"
    and "\<forall>i<spawned s. arrive s i \<noteq> None \<and> usage_since s i \<noteq> None \<and> wait s i \<noteq> None
           \<and> leaves s i \<noteq> None"
    and "length (wait_times s) = spawned s"
proof -
  note c = reachable_inv_cust[OF assms(1)]
  have r: "inv_res cfg s" using assms(1) by (rule reachable_inv_res)
  show u: "users s = []"
    using r assms(2) by (simp add: inv_res_def)
  show p: "put_queue s = []"
    using r assms(2,3) u by (auto simp: inv_res_def)
  show "\<forall>i<spawned s. arrive s i \<noteq> None \<and> usage_since s i \<noteq> None \<and> wait s i \<noteq> None
           \<and> leaves s i \<noteq> None"
  proof (intro allI impI)
    fix i assume i: "i < spawned s"
    have a: "arrive s i \<noteq> None"
      using inv_custD(2)[OF c, of i] i assms(2) by (auto simp: ok_init_def split: if_splits)
    then have b: "usage_since s i \<noteq> None"
      using inv_custD(3)[OF c, of i] p by (auto simp: ok_putq_def split: if_splits)
    then have w: "wait s i \<noteq> None"
      using inv_custD(4)[OF c, of i] assms(2) by (auto simp: ok_granted_def split: if_splits)
    then have "leaves s i \<noteq> None"
      using inv_custD(5)[OF c, of i] assms(2) by (auto simp: ok_service_def split: if_splits)
    then show "arrive s i \<noteq> None \<and> usage_since s i \<noteq> None \<and> wait s i \<noteq> None
           \<and> leaves s i \<noteq> None"
      using a b w by simp
  qed
  show "length (wait_times s) = spawned s"
    using r assms(2) p by (simp add: inv_res_def)
qed

lemma final_spawned:
  assumes "reachable cfg u s" "queue s = []"
  shows "int (spawned s) = max 0 (CUSTOMERS cfg)"
  using reachable_inv_setup[OF assms(1)] assms(2) by (auto simp: inv_setup_def)

text \<open>A release event that finds a waiting request and a free unit grants the head
  of the queue.\<close>

lemma release_grants_head:
  assumes "heappop (queue s) = Some (e, q)" "kind e = Released i"
    "put_queue s = h # rest" "int (length (users s)) < CASHIERS cfg"
  shows "\<exists>s'. env_step cfg u s = Inr s' \<and> now s' = time e \<and>
     usage_since s' h = Some (time e) \<and> users s' = users s @ [h] \<and> put_queue s' = rest \<and>
     (\<exists>x\<in>set (queue s'). kind x = Granted h \<and> time x = time e)"
  using assms by (simp add: env_step_def trigger_put_def schedule_def)

text \<open>Without a cashier the resource cannot be created: the first event raises and the
  run never leaves its initial state.\<close>

lemma no_cashiers_initial:
  assumes "CASHIERS cfg \<le> 0"
  shows "env_step cfg u initial = Inl ValueError"
  using assms by (simp add: eval_defs)

lemma reachable_no_cashiers:
  assumes "reachable cfg u s" "CASHIERS cfg \<le> 0"
  shows "s = initial"
  using assms(1)
proof (induction rule: reachable.induct)
  case start
  show ?case by simp
next
  case (step s s')
  then show ?case using no_cashiers_initial[OF assms(2), of u] by simp
qed

subsection \<open>The drawn numbers\<close>

text \<open>The random module delivers numbers in \<open>[0, 1)\<close>.  For such a number a uniform
  variate lies between its two bounds and an exponential variate with a positive rate
  is not negative.\<close>

lemma uniform_convex: "uniform a b r = a * (1 - r) + b * r"
  by (simp add: uniform_def algebra_simps)

lemma uniform_range:
  assumes "0 \<le> r" "r \<le> 1" "a \<le> b"
  shows "a \<le> uniform a b r" and "uniform a b r \<le> b"
proof -
  have "0 \<le> (b - a) * r" using assms by simp
  then show "a \<le> uniform a b r" by (simp add: uniform_def)
  have "(b - a) * r \<le> (b - a) * 1"
    using assms by (intro mult_left_mono) simp_all
  then show "uniform a b r \<le> b" by (simp add: uniform_def)
qed

lemma uniform_nonneg:
  assumes "0 \<le> r" "r \<le> 1" "0 \<le> a" "0 \<le> b"
  shows "0 \<le> uniform a b r"
  unfolding uniform_convex using assms by simp

lemma uniform_pos:
  assumes "0 \<le> r" "r \<le> 1" "0 < a" "0 < b"
  shows "0 < uniform a b r"
proof (cases "r = 0")
  case True
  then show ?thesis using assms by (simp add: uniform_def)
next
  case False
  then have "0 < b * r" using assms by simp
  moreover have "0 \<le> a * (1 - r)" using assms by simp
  ultimately show ?thesis unfolding uniform_convex by linarith
qed

lemma expovariate_nonneg:
  assumes "0 < l" "0 \<le> r" "r < 1"
  shows "0 \<le> expovariate l r"
proof -
  have "ln (1 - r) \<le> 0" using assms by simp
  then show ?thesis using assms(1) by (simp add: expovariate_def divide_nonpos_pos)
qed

subsection \<open>The statistics\<close>

lemma service_range:
  assumes "reachable cfg u s" "fst (SERVICE_TIME cfg) \<le> snd (SERVICE_TIME cfg)"
    "\<forall>n. 0 \<le> u n \<and> u n \<le> 1"
  shows "\<forall>d\<in>set (service_times s). fst (SERVICE_TIME cfg) \<le> d \<and> d \<le> snd (SERVICE_TIME cfg)"
  using assms(1)
proof (induction rule: reachable.induct)
  case start
  then show ?case by (simp add: initial_def schedule_def)
next
  case (step s s')
  from step.hyps(2) show ?case
  proof (cases rule: env_step_cases)
    case (serve e i a d)
    have "0 \<le> u (draws s)" "u (draws s) \<le> 1" using assms(3) by simp_all
    from uniform_range[OF this assms(2)]
    have "fst (SERVICE_TIME cfg) \<le> d \<and> d \<le> snd (SERVICE_TIME cfg)"
      using serve(5) by simp
    then show ?thesis using step.IH by (simp add: serve(7))
  qed (use step.IH in auto)
qed

lemma waits_nonneg:
  assumes "reachable cfg u s"
  shows "\<forall>w\<in>set (wait_times s). 0 \<le> w"
proof
  fix w assume "w \<in> set (wait_times s)"
  then obtain i where i: "i < length (wait_times s)" "w = wait_times s ! i"
    by (auto simp: in_set_conv_nth)
  note iw = inv_waitD[OF reachable_inv_wait[OF assms]]
  have "wait s i = Some w" using iw(4) i by simp
  then obtain g a where ga: "usage_since s i = Some g" "arrive s i = Some a" "w = g - a"
    using iw(5) by blast
  have "a \<le> g"
    using inv_grantsD(5)[OF reachable_inv_grants[OF assms]] ga(1,2) by blast
  then show "0 \<le> w" using ga(3) by simp
qed

subsection \<open>Runs that complete\<close>

text \<open>With at least one cashier, a positive mean interval, service bounds that are not
  negative and a stream of numbers in \<open>[0, 1)\<close>, no step raises: the event loop runs
  until no event is left.\<close>

lemma step_no_error:
  assumes "reachable cfg u s" "0 < CASHIERS cfg" "0 < INTERVAL cfg"
    "0 \<le> fst (SERVICE_TIME cfg)" "0 \<le> snd (SERVICE_TIME cfg)"
    "\<forall>n. 0 \<le> u n \<and> u n < 1"
    "env_step cfg u s = Inl err"
  shows "err = EmptySchedule"
proof (cases "heappop (queue s)")
  case None
  then have "queue s = []" by simp
  then show ?thesis using assms(7) by (simp add: env_step_def heappop_def)
next
  case (Some p)
  obtain e q where p: "p = (e, q)" by (cases p)
  have e: "e \<in> set (queue s)" using heappop_Some[of "queue s" e q] Some p by simp
  have d: "dispatch cfg u (kind e) (s\<lparr>now := time e, queue := q\<rparr>) = Inl err"
    using assms(7) Some p by (simp add: env_step_def)
  have x: "0 \<le> expovariate (1 / INTERVAL cfg) (u n)" for n
    using expovariate_nonneg[of "1 / INTERVAL cfg" "u n"] assms(3,6) by simp
  have y: "0 \<le> uniform (fst (SERVICE_TIME cfg)) (snd (SERVICE_TIME cfg)) (u n)" for n
    using uniform_nonneg[of "u n"] assms(4,5,6) by (simp add: less_imp_le)
  show ?thesis
  proof (cases "kind e")
    case InitSetup
    then show ?thesis using d assms(2,3) x[of "draws s"]
      by (simp add: handler_defs split: if_splits)
  next
    case SetupTimeout
    then show ?thesis using d assms(3) x[of "draws s"]
      by (simp add: handler_defs split: if_splits)
  next
    case (Granted i)
    have "arrive s i \<noteq> None"
      using pend_granted[OF reachable_inv_cust[OF assms(1)] e Granted] by simp
    then show ?thesis using d Granted y[of "draws s"]
      by (auto simp: customer_serve_def timeout_def split: if_splits)
  qed (use d in simp_all)
qed

lemma run_completes:
  assumes "reachable cfg u s" "0 < CASHIERS cfg" "0 < INTERVAL cfg"
    "0 \<le> fst (SERVICE_TIME cfg)" "0 \<le> snd (SERVICE_TIME cfg)"
    "\<forall>n. 0 \<le> u n \<and> u n < 1"
  shows "\<exists>f. env_run cfg u s = Inr f"
  using assms
proof (induction cfg u s rule: env_run.induct)
  case (1 cfg u s)
  show ?case
  proof (cases "env_step cfg u s")
    case (Inl err)
    then have "err = EmptySchedule"
      using step_no_error[OF "1.prems" Inl] by simp
    then show ?thesis using Inl by (simp add: env_run.simps[of cfg u s])
  next
    case (Inr s1)
    have "\<exists>f. env_run cfg u s1 = Inr f"
      using "1.IH"[OF Inr reachable.step[OF "1.prems"(1) Inr] "1.prems"(2-6)] .
    then show ?thesis using Inr by (simp add: env_run.simps[of cfg u s])
  qed
qed

lemma run_needs_cashier:
  assumes "env_run cfg u initial = Inr f"
  shows "0 < CASHIERS cfg"
proof (rule ccontr)
  assume "\<not> 0 < CASHIERS cfg"
  then have "env_step cfg u initial = Inl ValueError"
    using no_cashiers_initial[of cfg u] by simp
  then show False using assms by (simp add: env_run.simps[of cfg u initial])
qed

text \<open>The stream of the scenario is a stream of numbers in \<open>[0, 1)\<close>.\<close>

lemma scenario_stream_range: "\<forall>n. 0 \<le> scenario_stream n \<and> scenario_stream n < 1"
  by (simp add: scenario_stream_def)

subsection \<open>The shape of a step\<close>

text \<open>Every step removes the event it executes, appends the events it schedules and
  moves the clock to the time of the executed event.  Only the step that resumes a
  customer after its grant schedules a service timeout and adds to the busy time.\<close>

lemma step_shape:
  assumes "env_step cfg u s = Inr s'"
  shows "\<exists>e new. e \<in> set (queue s) \<and> now s' = time e \<and>
     queue s' = remove1 e (queue s) @ new \<and>
     ((\<forall>x\<in>set new. \<not> is_service (kind x)) \<and> busy_time s' = busy_time s \<or>
      (\<exists>i d n. new = [Event (time e + d) NORMAL n (ServiceTimeout i)] \<and>
         busy_time s' = busy_time s + d))"
  using assms
proof (cases rule: env_step_cases)
  case (spawn e d)
  show ?thesis
    by (rule exI[of _ e], rule exI[of _ "[Event (time e) URGENT (next_eid s) (InitCustomer (spawned s)),
                 Event (time e + d) NORMAL (Suc (next_eid s)) SetupTimeout]"])
       (simp add: spawn(1,8))
next
  case (finish e)
  show ?thesis
    by (rule exI[of _ e], rule exI[of _ "[Event (time e) NORMAL (next_eid s) ProcessDone]"])
       (simp add: finish(1,5))
next
  case (arrive_wait e i)
  show ?thesis
    by (rule exI[of _ e], rule exI[of _ "[]"]) (simp add: arrive_wait(1,5))
next
  case (arrive_grant e i h rest)
  show ?thesis
    by (rule exI[of _ e], rule exI[of _ "[Event (time e) NORMAL (next_eid s) (Granted h)]"])
       (simp add: arrive_grant(1,6))
next
  case (serve e i a d)
  show ?thesis
    by (rule exI[of _ e],
        rule exI[of _ "[Event (time e + d) NORMAL (next_eid s) (ServiceTimeout i)]"])
       (simp add: serve(1,7))
next
  case (leave e i)
  show ?thesis
    by (rule exI[of _ e], rule exI[of _ "[Event (time e) NORMAL (next_eid s) (Released i),
                 Event (time e) NORMAL (Suc (next_eid s)) ProcessDone]"])
       (simp add: leave(1,4))
next
  case (released_idle e i)
  show ?thesis
    by (rule exI[of _ e], rule exI[of _ "[]"]) (simp add: released_idle(1,5))
next
  case (released_grant e i h rest)
  show ?thesis
    by (rule exI[of _ e], rule exI[of _ "[Event (time e) NORMAL (next_eid s) (Granted h)]"])
       (simp add: released_grant(1,6))
next
  case (proc_done e)
  show ?thesis
    by (rule exI[of _ e], rule exI[of _ "[]"]) (simp add: proc_done(1,4))
qed

subsection \<open>The busy time\<close>

lemma sum_shift:
  "sum_list (map (\<lambda>x. time x - b) xs) =
     sum_list (map (\<lambda>x. time x - a) xs) - real (length xs) * (b - a)"
  by (induction xs) (simp_all add: algebra_simps)

lemma sum_remove1_zero:
  assumes "f e = (0::real)"
  shows "sum_list (map f (remove1 e xs)) = sum_list (map f xs)"
proof (cases "e \<in> set xs")
  case True
  then show ?thesis using assms by (simp add: sum_list_map_remove1)
next
  case False
  then show ?thesis by (simp add: remove1_idem)
qed

lemma inv_busy_initial: "inv_busy cfg initial"
  by (simp add: inv_busy_def remaining_def initial_def schedule_def)

lemma services_bounded:
  assumes "inv_res cfg s" "0 < CASHIERS cfg"
  shows "real (length (filter (\<lambda>e. is_service (kind e)) (queue s))) \<le> real_of_int (CASHIERS cfg)"
proof -
  have "int (count_kind is_service (queue s)) \<le> CASHIERS cfg"
    using assms by (auto simp: inv_res_def)
  then have "int (length (filter (\<lambda>e. is_service (kind e)) (queue s))) \<le> CASHIERS cfg"
    by (simp add: count_kind_def)
  then show ?thesis by linarith
qed

lemma inv_busy_step:
  assumes "inv_busy cfg s" "inv_res cfg s" "inv_time s" "0 < CASHIERS cfg"
    "env_step cfg u s = Inr s'"
  shows "inv_busy cfg s'"
proof -
  let ?S = "filter (\<lambda>e. is_service (kind e)) (queue s)"
  from step_shape[OF assms(5)] obtain e new where e: "e \<in> set (queue s)"
    and n: "now s' = time e" and q: "queue s' = remove1 e (queue s) @ new"
    and c: "(\<forall>x\<in>set new. \<not> is_service (kind x)) \<and> busy_time s' = busy_time s \<or>
      (\<exists>i d n. new = [Event (time e + d) NORMAL n (ServiceTimeout i)] \<and>
         busy_time s' = busy_time s + d)"
    by blast
  have d: "now s \<le> time e" using assms(3) e by (simp add: inv_time_def)
  have "sum_list (map (\<lambda>x. time x - time e) (remove1 e ?S))
      = sum_list (map (\<lambda>x. time x - time e) ?S)"
    by (rule sum_remove1_zero) simp
  also have "\<dots> = remaining s - real (length ?S) * (time e - now s)"
    unfolding remaining_def by (rule sum_shift)
  finally have r: "sum_list (map (\<lambda>x. time x - time e) (remove1 e ?S))
      = remaining s - real (length ?S) * (time e - now s)" .
  have "real (length ?S) * (time e - now s) \<le> real_of_int (CASHIERS cfg) * (time e - now s)"
    using services_bounded[OF assms(2,4)] d by (intro mult_right_mono) simp_all
  then have b: "busy_time s - (remaining s - real (length ?S) * (time e - now s))
      \<le> real_of_int (CASHIERS cfg) * time e"
    using assms(1) by (simp add: inv_busy_def algebra_simps)
  have f: "filter (\<lambda>e. is_service (kind e)) (queue s') =
      remove1 e ?S @ filter (\<lambda>e. is_service (kind e)) new"
    by (simp add: q filter_remove1)
  from c show ?thesis
  proof
    assume a: "(\<forall>x\<in>set new. \<not> is_service (kind x)) \<and> busy_time s' = busy_time s"
    then have "filter (\<lambda>e. is_service (kind e)) new = []"
      by (simp add: filter_empty_conv)
    then have "remaining s' = remaining s - real (length ?S) * (time e - now s)"
      using r by (simp add: remaining_def f n)
    then show ?thesis using b a by (simp add: inv_busy_def n)
  next
    assume "\<exists>i d n. new = [Event (time e + d) NORMAL n (ServiceTimeout i)] \<and>
         busy_time s' = busy_time s + d"
    then obtain i d k where a: "new = [Event (time e + d) NORMAL k (ServiceTimeout i)]"
      "busy_time s' = busy_time s + d"
      by blast
    have "remaining s' = remaining s - real (length ?S) * (time e - now s) + d"
      using r by (simp add: remaining_def f n a(1))
    then show ?thesis using b a(2) by (simp add: inv_busy_def n)
  qed
qed

lemma reachable_inv_busy:
  assumes "reachable cfg u s" "0 < CASHIERS cfg"
  shows "inv_busy cfg s"
  using assms(1)
proof (induction rule: reachable.induct)
  case start
  show ?case by (rule inv_busy_initial)
next
  case (step s s')
  show ?case
    using inv_busy_step[OF step.IH reachable_inv_res[OF step.hyps(1)]
        reachable_inv_time[OF step.hyps(1)] assms(2) step.hyps(2)] .
qed


lemma busy_bounded:
  assumes "reachable cfg u s" "queue s = []" "0 < CASHIERS cfg"
  shows "busy_time s \<le> real_of_int (CASHIERS cfg) * now s"
  using reachable_inv_busy[OF assms(1,3)] assms(2) by (simp add: inv_busy_def remaining_def)

subsection \<open>The elapsed time\<close>

lemma step_leaves:
  assumes "env_step cfg u s = Inr s'"
  shows "leaves s' = leaves s \<or>
     (\<exists>e i. e \<in> set (queue s) \<and> kind e = ServiceTimeout i \<and> now s' = time e \<and>
        leaves s' = (leaves s)(i \<mapsto> time e))"
  using assms by (cases rule: env_step_cases) auto

lemma leaves_past:
  assumes "reachable cfg u s"
  shows "\<forall>i l. leaves s i = Some l \<longrightarrow> 0 \<le> l \<and> l \<le> now s"
  using assms
proof (induction rule: reachable.induct)
  case start
  show ?case by (simp add: initial_def schedule_def)
next
  case (step s s')
  note t = reachable_inv_time[OF step.hyps(1)]
  have m: "now s \<le> now s'" using step_now_mono[OF t step.hyps(2)] .
  have z: "0 \<le> now s" using t by (simp add: inv_time_def)
  from step_leaves[OF step.hyps(2)] show ?case
  proof
    assume "leaves s' = leaves s"
    then show ?thesis using step.IH m by fastforce
  next
    assume "\<exists>e i. e \<in> set (queue s) \<and> kind e = ServiceTimeout i \<and> now s' = time e \<and>
        leaves s' = (leaves s)(i \<mapsto> time e)"
    then obtain e i where e: "now s' = time e" "leaves s' = (leaves s)(i \<mapsto> time e)"
      by blast
    show ?thesis
    proof (intro allI impI)
      fix j l assume l: "leaves s' j = Some l"
      show "0 \<le> l \<and> l \<le> now s'"
      proof (cases "j = i")
        case True
        then have "l = now s'" using l e by simp
        then show ?thesis using m z by simp
      next
        case False
        then have "leaves s j = Some l" using l e(2) by simp
        then have "0 \<le> l \<and> l \<le> now s" using step.IH by blast
        then show ?thesis using m by simp
      qed
    qed
  qed
qed

lemma inv_elapsed_initial: "inv_elapsed initial"
  by (simp add: inv_elapsed_def bounds_def initial_def schedule_def)

lemma inv_elapsedI:
  assumes "inv_elapsed s" "e \<in> set (queue s)" "now s' = time e"
    "queue s' = remove1 e (queue s) @ new"
    "\<And>b. bounds s' b \<Longrightarrow> bounds s b"
    "\<And>b. bounds s' b \<Longrightarrow> time e \<le> b \<Longrightarrow> \<forall>x\<in>set new. time x \<le> b"
  shows "inv_elapsed s'"
  unfolding inv_elapsed_def
proof (intro allI impI)
  fix b assume b: "bounds s' b"
  have i: "now s \<le> b" "\<forall>x\<in>set (queue s). time x \<le> b"
    using assms(1) assms(5)[OF b] by (simp_all add: inv_elapsed_def)
  have e: "time e \<le> b" using i(2) assms(2) by simp
  have "\<forall>x\<in>set (remove1 e (queue s)). time x \<le> b"
    using i(2) in_remove1D by fast
  then have "\<forall>x\<in>set (queue s'). time x \<le> b"
    using assms(6)[OF b e] by (auto simp: assms(4))
  then show "now s' \<le> b \<and> (\<forall>e\<in>set (queue s'). time e \<le> b)"
    using e assms(3) by simp
qed

lemma bounds_same:
  assumes "bounds s' b" "delays s' = delays s" "leaves s' = leaves s"
    "e \<in> set (queue s)" "\<not> is_service (kind e)" "queue s' = remove1 e (queue s) @ new"
  shows "bounds s b"
proof -
  have "time x \<le> b" if "x \<in> set (queue s)" "is_service (kind x)" for x
  proof -
    have "x \<noteq> e" using that(2) assms(5) by auto
    then have "x \<in> set (queue s')" using that(1) by (simp add: assms(6))
    then show ?thesis using assms(1) that(2) by (simp add: bounds_def)
  qed
  then show ?thesis using assms(1-3) by (simp add: bounds_def)
qed

lemma inv_elapsed_step:
  assumes "inv_elapsed s" "inv_setup cfg s" "inv_cust s" "env_step cfg u s = Inr s'"
  shows "inv_elapsed s'"
  using assms(4)
proof (cases rule: env_step_cases)
  case (spawn e d)
  have k: "\<not> is_service (kind e)" "is_setup (kind e)" using spawn(3) by auto
  have t: "time e = sum_list (delays s)"
    using setup_popped(4,5)[OF assms(2) spawn(1) k(2)] spawn(3) by auto
  show ?thesis
  proof (rule inv_elapsedI[OF assms(1) spawn(1)])
    show "now s' = time e" by (simp add: spawn(8))
    show "queue s' = remove1 e (queue s) @
        [Event (time e) URGENT (next_eid s) (InitCustomer (spawned s)),
         Event (time e + d) NORMAL (Suc (next_eid s)) SetupTimeout]"
      by (simp add: spawn(8))
  next
    fix b assume b: "bounds s' b"
    have "time x \<le> b" if "x \<in> set (queue s)" "is_service (kind x)" for x
    proof -
      have "x \<noteq> e" using that(2) k(1) by auto
      then have "x \<in> set (queue s')" using that(1) by (simp add: spawn(8))
      then show ?thesis using b that(2) by (simp add: bounds_def)
    qed
    moreover have "sum_list (delays s) \<le> b"
      using b spawn(7) by (simp add: bounds_def spawn(8))
    moreover have "\<forall>i l. leaves s i = Some l \<longrightarrow> l \<le> b"
      using b by (simp add: bounds_def spawn(8))
    ultimately show "bounds s b" by (simp add: bounds_def)
  next
    fix b assume b: "bounds s' b" and e: "time e \<le> b"
    have "time e + d \<le> b" using b t by (simp add: bounds_def spawn(8))
    then show "\<forall>x\<in>set [Event (time e) URGENT (next_eid s) (InitCustomer (spawned s)),
         Event (time e + d) NORMAL (Suc (next_eid s)) SetupTimeout]. time x \<le> b"
      using e by simp
  qed
next
  case (finish e)
  have k: "\<not> is_service (kind e)" using finish(3) by auto
  show ?thesis
  proof (rule inv_elapsedI[OF assms(1) finish(1)])
    show "now s' = time e" by (simp add: finish(5))
    show q: "queue s' = remove1 e (queue s) @ [Event (time e) NORMAL (next_eid s) ProcessDone]"
      by (simp add: finish(5))
    show "bounds s b" if "bounds s' b" for b
      by (rule bounds_same[OF that _ _ finish(1) k q]) (simp_all add: finish(5))
    show "\<forall>x\<in>set [Event (time e) NORMAL (next_eid s) ProcessDone]. time x \<le> b"
      if "time e \<le> b" for b using that by simp
  qed
next
  case (arrive_wait e i)
  have k: "\<not> is_service (kind e)" using arrive_wait(3) by auto
  show ?thesis
  proof (rule inv_elapsedI[OF assms(1) arrive_wait(1)])
    show "now s' = time e" by (simp add: arrive_wait(5))
    show q: "queue s' = remove1 e (queue s) @ []"
      by (simp add: arrive_wait(5))
    show "bounds s b" if "bounds s' b" for b
      by (rule bounds_same[OF that _ _ arrive_wait(1) k q]) (simp_all add: arrive_wait(5))
    show "\<forall>x\<in>set []. time x \<le> b" for b :: real by simp
  qed
next
  case (arrive_grant e i h rest)
  have k: "\<not> is_service (kind e)" using arrive_grant(3) by auto
  show ?thesis
  proof (rule inv_elapsedI[OF assms(1) arrive_grant(1)])
    show "now s' = time e" by (simp add: arrive_grant(6))
    show q: "queue s' = remove1 e (queue s) @ [Event (time e) NORMAL (next_eid s) (Granted h)]"
      by (simp add: arrive_grant(6))
    show "bounds s b" if "bounds s' b" for b
      by (rule bounds_same[OF that _ _ arrive_grant(1) k q]) (simp_all add: arrive_grant(6))
    show "\<forall>x\<in>set [Event (time e) NORMAL (next_eid s) (Granted h)]. time x \<le> b"
      if "time e \<le> b" for b using that by simp
  qed
next
  case (serve e i a d)
  have k: "\<not> is_service (kind e)" using serve(3) by auto
  show ?thesis
  proof (rule inv_elapsedI[OF assms(1) serve(1)])
    show "now s' = time e" by (simp add: serve(7))
    show q: "queue s' = remove1 e (queue s) @
        [Event (time e + d) NORMAL (next_eid s) (ServiceTimeout i)]"
      by (simp add: serve(7))
    show "bounds s b" if "bounds s' b" for b
      by (rule bounds_same[OF that _ _ serve(1) k q]) (simp_all add: serve(7))
    show "\<forall>x\<in>set [Event (time e + d) NORMAL (next_eid s) (ServiceTimeout i)]. time x \<le> b"
      if "bounds s' b" for b using that by (simp add: bounds_def serve(7))
  qed
next
  case (leave e i)
  have n: "leaves s i = None"
    using pend_service[OF assms(3) leave(1,3)] by simp
  show ?thesis
  proof (rule inv_elapsedI[OF assms(1) leave(1)])
    show "now s' = time e" by (simp add: leave(4))
    show "queue s' = remove1 e (queue s) @
        [Event (time e) NORMAL (next_eid s) (Released i),
         Event (time e) NORMAL (Suc (next_eid s)) ProcessDone]"
      by (simp add: leave(4))
  next
    fix b assume b: "bounds s' b"
    have "leaves s' i = Some (time e)" by (simp add: leave(4))
    then have e: "time e \<le> b" using b unfolding bounds_def by blast
    have "time x \<le> b" if "x \<in> set (queue s)" "is_service (kind x)" for x
    proof (cases "x = e")
      case True
      then show ?thesis using e by simp
    next
      case False
      then have "x \<in> set (queue s')" using that(1) by (simp add: leave(4))
      then show ?thesis using b that(2) by (simp add: bounds_def)
    qed
    moreover have "sum_list (delays s) \<le> b"
      using b by (simp add: bounds_def leave(4))
    moreover have "l \<le> b" if "leaves s j = Some l" for j l
    proof -
      have "j \<noteq> i" using that n by auto
      then have "leaves s' j = Some l" using that by (simp add: leave(4))
      then show ?thesis using b unfolding bounds_def by blast
    qed
    ultimately show "bounds s b" by (simp add: bounds_def)
  next
    fix b :: real assume "time e \<le> b"
    then show "\<forall>x\<in>set [Event (time e) NORMAL (next_eid s) (Released i),
         Event (time e) NORMAL (Suc (next_eid s)) ProcessDone]. time x \<le> b"
      by simp
  qed
next
  case (released_idle e i)
  have k: "\<not> is_service (kind e)" using released_idle(3) by auto
  show ?thesis
  proof (rule inv_elapsedI[OF assms(1) released_idle(1)])
    show "now s' = time e" by (simp add: released_idle(5))
    show q: "queue s' = remove1 e (queue s) @ []"
      by (simp add: released_idle(5))
    show "bounds s b" if "bounds s' b" for b
      by (rule bounds_same[OF that _ _ released_idle(1) k q]) (simp_all add: released_idle(5))
    show "\<forall>x\<in>set []. time x \<le> b" for b :: real by simp
  qed
next
  case (released_grant e i h rest)
  have k: "\<not> is_service (kind e)" using released_grant(3) by auto
  show ?thesis
  proof (rule inv_elapsedI[OF assms(1) released_grant(1)])
    show "now s' = time e" by (simp add: released_grant(6))
    show q: "queue s' = remove1 e (queue s) @ [Event (time e) NORMAL (next_eid s) (Granted h)]"
      by (simp add: released_grant(6))
    show "bounds s b" if "bounds s' b" for b
      by (rule bounds_same[OF that _ _ released_grant(1) k q]) (simp_all add: released_grant(6))
    show "\<forall>x\<in>set [Event (time e) NORMAL (next_eid s) (Granted h)]. time x \<le> b"
      if "time e \<le> b" for b using that by simp
  qed
next
  case (proc_done e)
  have k: "\<not> is_service (kind e)" using proc_done(3) by auto
  show ?thesis
  proof (rule inv_elapsedI[OF assms(1) proc_done(1)])
    show "now s' = time e" by (simp add: proc_done(4))
    show q: "queue s' = remove1 e (queue s) @ []"
      by (simp add: proc_done(4))
    show "bounds s b" if "bounds s' b" for b
      by (rule bounds_same[OF that _ _ proc_done(1) k q]) (simp_all add: proc_done(4))
    show "\<forall>x\<in>set []. time x \<le> b" for b :: real by simp
  qed
qed

lemma reachable_inv_elapsed: "reachable cfg u s \<Longrightarrow> inv_elapsed s"
proof (induction rule: reachable.induct)
  case start
  show ?case by (rule inv_elapsed_initial)
next
  case (step s s')
  show ?case
    using inv_elapsed_step[OF step.IH reachable_inv_setup[OF step.hyps(1)]
        reachable_inv_cust[OF step.hyps(1)] step.hyps(2)] .
qed

text \<open>The latest departure.\<close>

lemma foldr_max_ge: "x \<in> set xs \<Longrightarrow> x \<le> foldr max xs (0::real)"
  by (induction xs) auto

lemma foldr_max_nonneg: "0 \<le> foldr max xs (0::real)"
  by (induction xs) auto

lemma foldr_max_le: "\<forall>x\<in>set xs. x \<le> b \<Longrightarrow> 0 \<le> b \<Longrightarrow> foldr max xs (0::real) \<le> b"
  by (induction xs) auto

lemma foldr_max_in:
  "xs \<noteq> [] \<Longrightarrow> \<forall>x\<in>set xs. 0 \<le> x \<Longrightarrow> foldr max xs (0::real) \<in> set xs"
proof (induction xs)
  case Nil
  then show ?case by simp
next
  case (Cons x xs)
  show ?case
  proof (cases "xs = []")
    case True
    then show ?thesis using Cons.prems by (simp add: max_absorb1)
  next
    case False
    then have m: "foldr max xs 0 \<in> set xs" using Cons by simp
    show ?thesis
    proof (cases "x \<le> foldr max xs 0")
      case True
      then have "foldr max (x # xs) 0 = foldr max xs 0" by (simp add: max_absorb2)
      then show ?thesis using m by simp
    next
      case False
      then have "foldr max (x # xs) 0 = x" by (simp add: max_absorb1)
      then show ?thesis by simp
    qed
  qed
qed

lemma latest_ge:
  assumes "i < spawned s" "leaves s i = Some l"
  shows "l \<le> latest s"
proof -
  have "l \<in> set (departures s)"
    using assms by (force simp: departures_def image_iff)
  then show ?thesis unfolding latest_def by (rule foldr_max_ge)
qed

lemma latest_le:
  assumes "\<forall>i l. leaves s i = Some l \<longrightarrow> l \<le> b" "0 \<le> b"
  shows "latest s \<le> b"
  unfolding latest_def
proof (rule foldr_max_le[OF _ assms(2)])
  show "\<forall>x\<in>set (departures s). x \<le> b"
    using assms by (auto simp: departures_def split: option.splits)
qed

lemma latest_attained:
  assumes "0 < spawned s" "\<forall>i<spawned s. \<exists>l. leaves s i = Some l \<and> 0 \<le> l"
  shows "\<exists>i<spawned s. leaves s i = Some (latest s)"
proof -
  have "departures s \<noteq> []" using assms(1) by (simp add: departures_def)
  moreover have "\<forall>x\<in>set (departures s). 0 \<le> x"
    using assms(2) by (auto simp: departures_def split: option.splits)
  ultimately have "latest s \<in> set (departures s)"
    unfolding latest_def by (rule foldr_max_in)
  then obtain i where i: "i < spawned s" "latest s = (case leaves s i of None \<Rightarrow> 0 | Some l \<Rightarrow> l)"
    by (auto simp: departures_def)
  then show ?thesis using assms(2) by (auto split: option.splits)
qed

text \<open>When no event is left the clock shows the later of the end of the generator and
  the latest departure.\<close>

lemma final_now:
  assumes "reachable cfg u s" "queue s = []"
  shows "now s = max (sum_list (delays s)) (latest s)"
proof -
  have z: "0 \<le> now s" using reachable_inv_time[OF assms(1)] by (simp add: inv_time_def)
  have d: "sum_list (delays s) \<le> now s"
    using reachable_inv_setup[OF assms(1)] assms(2) by (simp add: inv_setup_def)
  have l: "latest s \<le> now s"
    using latest_le[OF _ z] leaves_past[OF assms(1)] by blast
  have f: "leaves s i = Some l \<Longrightarrow> i < spawned s" for i l
    using inv_custD(1)[OF reachable_inv_cust[OF assms(1)], of i] by (auto simp: ok_fields_def)
  have "bounds s (max (sum_list (delays s)) (latest s))"
    using latest_ge f assms(2) by (fastforce simp: bounds_def)
  then have "now s \<le> max (sum_list (delays s)) (latest s)"
    using reachable_inv_elapsed[OF assms(1)] by (simp add: inv_elapsed_def)
  then show ?thesis using d l by simp
qed

subsection \<open>The outcome of a run\<close>

lemma expovariate_neg:
  assumes "l < 0" "0 < r" "r < 1"
  shows "expovariate l r < 0"
proof -
  have "ln (1 - r) < 0" using assms by simp
  then have "0 < ln (1 - r) / l" using assms(1) by (rule divide_neg_neg)
  then show ?thesis by (simp add: expovariate_def)
qed

lemma service_pos:
  assumes "reachable cfg u s" "0 < fst (SERVICE_TIME cfg)" "0 < snd (SERVICE_TIME cfg)"
    "\<forall>n. 0 \<le> u n \<and> u n \<le> 1"
  shows "\<forall>d\<in>set (service_times s). 0 < d"
  using assms(1)
proof (induction rule: reachable.induct)
  case start
  then show ?case by (simp add: initial_def schedule_def)
next
  case (step s s')
  from step.hyps(2) show ?case
  proof (cases rule: env_step_cases)
    case (serve e i a d)
    have "0 \<le> u (draws s)" "u (draws s) \<le> 1" using assms(4) by simp_all
    from uniform_pos[OF this assms(2,3)]
    have "0 < d" using serve(5) by simp
    then show ?thesis using step.IH by (simp add: serve(7))
  qed (use step.IH in auto)
qed

lemma sum_list_positive: "xs \<noteq> [] \<Longrightarrow> \<forall>x\<in>set xs. 0 < x \<Longrightarrow> 0 < sum_list (xs :: real list)"
proof (induction xs)
  case Nil
  then show ?case by simp
next
  case (Cons x xs)
  show ?case
  proof (cases "xs = []")
    case True
    then show ?thesis using Cons.prems by simp
  next
    case False
    then have "0 < sum_list xs" using Cons by simp
    then show ?thesis using Cons.prems by simp
  qed
qed

text \<open>Without a cashier the constructor of the resource raises.\<close>

lemma run_no_cashier:
  assumes "CASHIERS cfg \<le> 0"
  shows "env_run cfg u initial = Inl ValueError"
  using no_cashiers_initial[OF assms, of u] by (simp add: env_run.simps[of cfg u initial])

text \<open>Without customers the loop of the generator is not entered: the event loop ends
  at time \<open>0\<close> and nothing is recorded.\<close>

lemma run_no_customers:
  assumes "0 < CASHIERS cfg" "CUSTOMERS cfg \<le> 0"
  shows "\<exists>f. env_run cfg u initial = Inr f \<and> wait_times f = [] \<and> service_times f = [] \<and>
     now f = 0"
  using assms by (simp add: env_run.simps eval_defs)

text \<open>With a mean interval of zero the first iteration divides by zero, and with a
  negative one the first delay is negative unless the number drawn is \<open>0\<close>.\<close>

lemma run_interval_zero:
  assumes "0 < CASHIERS cfg" "0 < CUSTOMERS cfg" "INTERVAL cfg = 0"
  shows "env_run cfg u initial = Inl ZeroDivisionError"
proof -
  have "env_step cfg u initial = Inl ZeroDivisionError"
    using assms by (simp add: eval_defs)
  then show ?thesis by (simp add: env_run.simps[of cfg u initial])
qed

lemma run_interval_negative:
  assumes "0 < CASHIERS cfg" "0 < CUSTOMERS cfg" "INTERVAL cfg < 0" "0 < u 0" "u 0 < 1"
  shows "env_run cfg u initial = Inl ValueError"
proof -
  have "expovariate (1 / INTERVAL cfg) (u 0) < 0"
    using expovariate_neg[of "1 / INTERVAL cfg" "u 0"] assms(3-5) by simp
  then have "env_step cfg u initial = Inl ValueError"
    using assms by (simp add: eval_defs)
  then show ?thesis by (simp add: env_run.simps[of cfg u initial])
qed

text \<open>With a cashier, a customer, a positive mean interval and positive service
  bounds (in either order), the run completes with a positive elapsed time and one
  recorded wait for each customer.\<close>

lemma run_valid:
  assumes "0 < CASHIERS cfg" "0 < CUSTOMERS cfg" "0 < INTERVAL cfg"
    "0 < fst (SERVICE_TIME cfg)" "0 < snd (SERVICE_TIME cfg)"
    "\<forall>n. 0 \<le> u n \<and> u n < 1"
  shows "\<exists>f. env_run cfg u initial = Inr f \<and> int (length (wait_times f)) = CUSTOMERS cfg \<and>
     length (service_times f) = length (wait_times f) \<and> 0 < now f"
proof -
  obtain f where f: "env_run cfg u initial = Inr f"
    using run_completes[OF reachable.start assms(1,3) _ _ assms(6)] assms(4,5)
    by (auto simp: less_imp_le)
  have r: "reachable cfg u f" and q: "queue f = []"
    using env_run_initial[OF f] by simp_all
  have l: "int (length (wait_times f)) = CUSTOMERS cfg"
    using final_state(4)[OF r q assms(1)] final_spawned[OF r q] assms(2) by simp
  have e: "length (service_times f) = length (wait_times f)"
    and b: "busy_time f = sum_list (service_times f)"
    using reachable_inv_res[OF r] by (simp_all add: inv_res_def)
  have n: "service_times f \<noteq> []" using l e assms(2) by auto
  have "\<forall>n. 0 \<le> u n \<and> u n \<le> 1" using assms(6) by (simp add: less_imp_le)
  from service_pos[OF r assms(4,5) this]
  have "0 < busy_time f" using sum_list_positive[OF n] b by simp
  then have "0 < real_of_int (CASHIERS cfg) * now f"
    using busy_bounded[OF r q assms(1)] by simp
  then have "0 < now f"
    using assms(1) by (simp add: zero_less_mult_iff)
  then show ?thesis using f l e by blast
qed

text \<open>What a summary that is returned says about the final state.\<close>

lemma run_simulation_Inr:
  assumes "run_simulation prng cfg = Inr r"
  shows "\<exists>f. env_run cfg (prng (RANDOM_SEED cfg)) initial = Inr f \<and>
     now f * real_of_int (CASHIERS cfg) \<noteq> 0 \<and> total_time r = now f \<and>
     utilization r = busy_time f / (now f * real_of_int (CASHIERS cfg)) * 100 \<and>
     waits r = wait_times f \<and> services r = service_times f \<and> wait_times f \<noteq> []"
  using assms unfolding run_simulation_def mean_def
  by (auto split: sum.splits if_splits)

section \<open>The claims of the specification\<close>

subsection \<open>The recorded wait of a customer\<close>

text \<open>
  C1: for every customer whose wait has been recorded, the recorded wait (the local
  \<open>wait\<close>, and entry \<open>i\<close> of \<open>wait_times\<close> for customer \<open>i\<close>) is exactly the time of the
  grant of its request minus the time of its arrival.
\<close>

theorem wait_correct:
  assumes "reachable cfg u s" and "i < length (wait_times s)"
  shows "\<exists>g a. usage_since s i = Some g \<and> arrive s i = Some a \<and>
           wait s i = Some (g - a) \<and> wait_times s ! i = g - a"
proof -
  note w = inv_waitD[OF reachable_inv_wait[OF assms(1)]]
  have a: "wait s i = Some (wait_times s ! i)"
    using w(4) assms(2) by simp
  then obtain g b where "usage_since s i = Some g" "arrive s i = Some b"
    "wait_times s ! i = g - b"
    using w(5) by blast
  then show ?thesis using a by simp
qed

theorem wait_correct_witness:
  "\<exists>s. env_run scenario_config scenario_stream initial = Inr s \<and>
     wait_times s = [0, 2, 4] \<and> (1::nat) < length (wait_times s) \<and>
     usage_since s 1 = Some 3 \<and> arrive s 1 = Some 1 \<and>
     (\<exists>g a. usage_since s 1 = Some g \<and> arrive s 1 = Some a \<and>
        wait s 1 = Some (g - a) \<and> wait_times s ! 1 = g - a)"
proof -
  obtain s where e: "env_run scenario_config scenario_stream initial = Inr s"
    and v: "wait_times s = [0, 2, 4]" "usage_since s 1 = Some 3" "arrive s 1 = Some 1"
    using scenario_final by blast
  have l: "(1::nat) < length (wait_times s)" using v(1) by simp
  have r: "reachable scenario_config scenario_stream s"
    using env_run_initial[OF e] by simp
  show ?thesis
    using wait_correct[OF r l] e v l by blast
qed

subsection \<open>The capacity of the resource\<close>

lemma count_le_1_distinct: "(\<And>x. count_list xs x \<le> 1) \<Longrightarrow> distinct xs"
proof (induction xs)
  case Nil
  then show ?case by simp
next
  case (Cons a xs)
  have "count_list xs a = 0"
    using Cons.prems[of a] by simp
  then have "a \<notin> set xs"
    by (simp add: count_list_0_iff)
  moreover have "count_list xs x \<le> 1" for x
    using Cons.prems[of x] by (simp split: if_splits)
  ultimately show ?case
    using Cons.IH by simp
qed

lemma users_holding:
  assumes "inv_cust s"
  shows "distinct (users s)"
    and "set (users s) = {i. usage_since s i \<noteq> None \<and> leaves s i = None}"
proof -
  have c: "count_list (users s) i =
      (if usage_since s i \<noteq> None \<and> leaves s i = None then 1 else 0)" for i
    using inv_custD(6)[OF assms, of i] by (simp add: ok_users_def)
  show "distinct (users s)"
    by (rule count_le_1_distinct) (simp add: c)
  have "i \<in> set (users s) \<longleftrightarrow> usage_since s i \<noteq> None \<and> leaves s i = None" for i
    using c[of i] count_list_0_iff[of "users s" i] by (auto split: if_splits)
  then show "set (users s) = {i. usage_since s i \<noteq> None \<and> leaves s i = None}"
    by blast
qed

text \<open>
  C2: at every state a run passes through, the customers that have been granted a unit
  and have not yet released it are exactly the entries of \<open>users\<close>, and their number is at
  least 0 and at most the configured capacity \<open>CASHIERS\<close>.
\<close>

theorem capacity_invariant:
  assumes "reachable cfg u s" and "0 < CASHIERS cfg"
  shows "card {i. usage_since s i \<noteq> None \<and> leaves s i = None} = length (users s)
     \<and> 0 \<le> int (length (users s)) \<and> int (length (users s)) \<le> CASHIERS cfg"
proof -
  have c: "inv_cust s" using assms(1) by (rule reachable_inv_cust)
  have "card (set (users s)) = length (users s)"
    using users_holding(1)[OF c] by (rule distinct_card)
  then have "card {i. usage_since s i \<noteq> None \<and> leaves s i = None} = length (users s)"
    using users_holding(2)[OF c] by simp
  moreover have "int (length (users s)) \<le> CASHIERS cfg"
    using reachable_inv_res[OF assms(1), of ] assms(2) by (auto simp: inv_res_def)
  ultimately show ?thesis by simp
qed

theorem capacity_invariant_witness:
  "0 < CASHIERS scenario_config \<and>
   (\<exists>s. env_steps scenario_config scenario_stream 3 initial = Inr s \<and>
        users s = [0] \<and>
        card {i. usage_since s i \<noteq> None \<and> leaves s i = None} = length (users s) \<and>
        0 \<le> int (length (users s)) \<and> int (length (users s)) \<le> CASHIERS scenario_config)"
proof -
  have h: "0 < CASHIERS scenario_config"
    by (simp add: scenario_config_def)
  have "\<exists>s. env_steps scenario_config scenario_stream 3 initial = Inr s \<and> users s = [0]"
    by (simp add: numeral_3_eq_3 scenario_config_def scenario_stream_def eval_defs
        expovariate_unit expovariate_zero)
  then obtain s where e: "env_steps scenario_config scenario_stream 3 initial = Inr s"
    and v: "users s = [0]"
    by blast
  have r: "reachable scenario_config scenario_stream s"
    using reachable_steps[OF reachable.start e] .
  show ?thesis
    using capacity_invariant[OF r h] h e v by blast
qed

subsection \<open>First come, first served\<close>

lemma scenario_release:
  "\<exists>s e q. env_steps scenario_config scenario_stream 10 initial = Inr s \<and>
     put_queue s = [1, 2] \<and> users s = [] \<and> now s = 3 \<and>
     usage_since s 1 = None \<and> usage_since s 2 = None \<and>
     heappop (queue s) = Some (e, q) \<and> kind e = Released 0 \<and> time e = 3"
  by (simp add: eval_nat_numeral scenario_config_def scenario_stream_def eval_defs
        expovariate_unit expovariate_zero)

text \<open>
  C3: requests are made in the order of the customers (customer \<open>i\<close> has requested
  before customer \<open>j\<close> when \<open>i < j\<close>) and the queue of the resource holds the requests that
  wait, in that order.  A request made earlier is granted no later than one made later:
  when customer \<open>j\<close> has been granted a unit at \<open>gj\<close>, every customer \<open>i < j\<close> has been
  granted one at some \<open>gi \<le> gj\<close>.  And the requests that wait are served: while a
  request waits every unit is held or the event of its release is scheduled, the
  release event that finds a free unit grants it to the head of the queue at that very
  time, and when the run has ended no request waits and every customer spawned has
  been granted a unit.
\<close>

theorem fifo_order:
  assumes "reachable cfg u s"
  shows "sorted_wrt (<) (put_queue s) \<and>
     (\<forall>k. k \<in> set (put_queue s) \<longleftrightarrow> arrive s k \<noteq> None \<and> usage_since s k = None) \<and>
     (\<forall>i j aj. i < j \<longrightarrow> arrive s j = Some aj \<longrightarrow> (\<exists>ai. arrive s i = Some ai \<and> ai \<le> aj)) \<and>
     (\<forall>i j gj. i < j \<longrightarrow> usage_since s j = Some gj \<longrightarrow>
        (\<exists>gi. usage_since s i = Some gi \<and> gi \<le> gj)) \<and>
     (put_queue s \<noteq> [] \<longrightarrow>
        CASHIERS cfg \<le> int (length (users s)) + int (count_kind is_released (queue s))) \<and>
     (\<forall>e q i h rest. heappop (queue s) = Some (e, q) \<longrightarrow> kind e = Released i \<longrightarrow>
        put_queue s = h # rest \<longrightarrow> int (length (users s)) < CASHIERS cfg \<longrightarrow>
        (\<exists>s'. env_step cfg u s = Inr s' \<and> now s' = time e \<and>
           usage_since s' h = Some (time e) \<and> users s' = users s @ [h] \<and>
           put_queue s' = rest)) \<and>
     (queue s = [] \<longrightarrow> put_queue s = [] \<and> (\<forall>k<spawned s. usage_since s k \<noteq> None))"
proof -
  note c = reachable_inv_cust[OF assms(1)]
  note g = inv_grantsD[OF reachable_inv_grants[OF assms(1)]]
  have a: "\<forall>i j ai aj. i < j \<longrightarrow> arrive s i = Some ai \<longrightarrow> arrive s j = Some aj \<longrightarrow> ai \<le> aj"
    using reachable_inv_arrivals[OF assms(1)] by (simp add: inv_arrivals_def)
  have 0: "\<forall>k. k \<in> set (put_queue s) \<longleftrightarrow> arrive s k \<noteq> None \<and> usage_since s k = None"
    using putq_member[OF c] by blast
  have 1: "\<forall>i j aj. i < j \<longrightarrow> arrive s j = Some aj \<longrightarrow> (\<exists>ai. arrive s i = Some ai \<and> ai \<le> aj)"
  proof (intro allI impI)
    fix i j aj assume h: "i < j" "arrive s j = Some aj"
    then have "j < spawned s"
      using inv_custD(1)[OF c, of j] by (simp add: ok_fields_def)
    then have "arrive s i \<noteq> None"
      using arrived_below[OF reachable_inv_order[OF assms(1)] h(1)] by simp
    then obtain ai where ai: "arrive s i = Some ai" by blast
    then have "ai \<le> aj" using a h by blast
    then show "\<exists>ai. arrive s i = Some ai \<and> ai \<le> aj" using ai by simp
  qed
  have 2: "\<forall>i j gj. i < j \<longrightarrow> usage_since s j = Some gj \<longrightarrow>
        (\<exists>gi. usage_since s i = Some gi \<and> gi \<le> gj)"
  proof (intro allI impI)
    fix i j gj assume h: "i < j" "usage_since s j = Some gj"
    then have "usage_since s i \<noteq> None" using g(2) by blast
    then obtain gi where gi: "usage_since s i = Some gi" by blast
    then have "gi \<le> gj" using g(4) h by blast
    then show "\<exists>gi. usage_since s i = Some gi \<and> gi \<le> gj" using gi by simp
  qed
  have 3: "put_queue s \<noteq> [] \<longrightarrow>
        CASHIERS cfg \<le> int (length (users s)) + int (count_kind is_released (queue s))"
    using reachable_inv_res[OF assms(1)] by (auto simp: inv_res_def)
  have 4: "\<forall>e q i h rest. heappop (queue s) = Some (e, q) \<longrightarrow> kind e = Released i \<longrightarrow>
        put_queue s = h # rest \<longrightarrow> int (length (users s)) < CASHIERS cfg \<longrightarrow>
        (\<exists>s'. env_step cfg u s = Inr s' \<and> now s' = time e \<and>
           usage_since s' h = Some (time e) \<and> users s' = users s @ [h] \<and>
           put_queue s' = rest)"
  proof (intro allI impI)
    fix e q i h rest
    assume "heappop (queue s) = Some (e, q)" "kind e = Released i" "put_queue s = h # rest"
      "int (length (users s)) < CASHIERS cfg"
    from release_grants_head[OF this, of u]
    show "\<exists>s'. env_step cfg u s = Inr s' \<and> now s' = time e \<and>
           usage_since s' h = Some (time e) \<and> users s' = users s @ [h] \<and>
           put_queue s' = rest"
      by blast
  qed
  have 5: "queue s = [] \<longrightarrow> put_queue s = [] \<and> (\<forall>k<spawned s. usage_since s k \<noteq> None)"
  proof (cases "0 < CASHIERS cfg")
    case True
    then show ?thesis using final_state(2,3)[OF assms(1) _ True] by simp
  next
    case False
    then have "s = initial" using reachable_no_cashiers[OF assms(1)] by simp
    then show ?thesis by (simp add: initial_def schedule_def)
  qed
  show ?thesis
    by (intro conjI g(1) 0 1 2 3 4 5)
qed

theorem fifo_order_witness:
  "(\<exists>s s'. env_steps scenario_config scenario_stream 10 initial = Inr s \<and>
      put_queue s = [1, 2] \<and> users s = [] \<and> usage_since s 1 = None \<and>
      env_step scenario_config scenario_stream s = Inr s' \<and>
      now s' = 3 \<and> usage_since s' 1 = Some 3 \<and> users s' = [1] \<and> put_queue s' = [2]) \<and>
   (\<exists>s. env_run scenario_config scenario_stream initial = Inr s \<and> queue s = [] \<and>
      put_queue s = [] \<and> spawned s = 3 \<and>
      usage_since s 0 = Some 0 \<and> usage_since s 1 = Some 3 \<and> usage_since s 2 = Some 6)"
proof -
  have h: "0 < CASHIERS scenario_config"
    by (simp add: scenario_config_def)
  obtain s e q where e: "env_steps scenario_config scenario_stream 10 initial = Inr s"
    and v: "put_queue s = [1, 2]" "users s = []" "usage_since s 1 = None"
    and p: "heappop (queue s) = Some (e, q)" "kind e = Released 0" "time e = 3"
    using scenario_release by blast
  have r: "reachable scenario_config scenario_stream s"
    using reachable_steps[OF reachable.start e] .
  have l: "int (length (users s)) < CASHIERS scenario_config"
    using v(2) h by simp
  from fifo_order[OF r] p(1,2) v(1) l
  obtain s' where s': "env_step scenario_config scenario_stream s = Inr s'"
    "now s' = time e" "usage_since s' 1 = Some (time e)" "users s' = users s @ [1]"
    "put_queue s' = [2]"
    by blast
  have a: "\<exists>s s'. env_steps scenario_config scenario_stream 10 initial = Inr s \<and>
      put_queue s = [1, 2] \<and> users s = [] \<and> usage_since s 1 = None \<and>
      env_step scenario_config scenario_stream s = Inr s' \<and>
      now s' = 3 \<and> usage_since s' 1 = Some 3 \<and> users s' = [1] \<and> put_queue s' = [2]"
    using e v s' p(3) by auto
  obtain f where f: "env_run scenario_config scenario_stream initial = Inr f"
    and w: "usage_since f 0 = Some 0" "usage_since f 1 = Some 3" "usage_since f 2 = Some 6"
      "wait_times f = [0, 2, 4]"
    using scenario_final by blast
  have rf: "reachable scenario_config scenario_stream f" "queue f = []"
    using env_run_initial[OF f] by simp_all
  have "put_queue f = []"
    using fifo_order[OF rf(1)] rf(2) by simp
  moreover have "spawned f = 3"
    using final_state(4)[OF rf h] w(4) by simp
  ultimately have b: "\<exists>s. env_run scenario_config scenario_stream initial = Inr s \<and> queue s = [] \<and>
      put_queue s = [] \<and> spawned s = 3 \<and>
      usage_since s 0 = Some 0 \<and> usage_since s 1 = Some 3 \<and> usage_since s 2 = Some 6"
    using f rf(2) w by blast
  show ?thesis
    using a b by blast
qed

subsection \<open>Determinism\<close>

text \<open>Two events that no event precedes have the same key, and the sequence numbers of
  the scheduled events are distinct: the event to execute next is unique, and it is
  the one \<open>heappop\<close> returns.\<close>

lemma key_eq:
  assumes "\<not> key_less a b" "\<not> key_less b a"
  shows "eid a = eid b"
  using assms by (auto simp: key_less_def)

lemma is_next_heappop:
  assumes "inv_eid s" "is_next (queue s) e"
  shows "heappop (queue s) = Some (e, remove1 e (queue s))"
proof -
  have e: "e \<in> set (queue s)" "\<forall>x\<in>set (queue s). \<not> key_less x e"
    using assms(2) by (simp_all add: is_next_def)
  then have "queue s \<noteq> []" by auto
  then obtain m q where p: "heappop (queue s) = Some (m, q)"
    by (cases "heappop (queue s)") auto
  note h = heappop_Some[OF p]
  have "eid m = eid e"
    using key_eq[of m e] h(3)[OF e(1)] e(2) h(1) by blast
  moreover have "inj_on eid (set (queue s))"
    using assms(1) by (simp add: inv_eid_def distinct_map)
  ultimately have "m = e" using h(1) e(1) by (auto dest: inj_onD)
  then show ?thesis using p h(2) by simp
qed

lemma sched_step_env_step:
  assumes "inv_eid s" "sched_step cfg u s r"
  shows "env_step cfg u s = r"
  using assms(2)
proof (cases rule: sched_step.cases)
  case (exec e)
  then show ?thesis using is_next_heappop[OF assms(1) exec(2)] by (simp add: env_step_def)
qed

lemma sched_step_not_empty: "sched_step cfg u s r \<Longrightarrow> r \<noteq> Inl EmptySchedule"
  by (auto elim!: sched_step.cases simp: dispatch_not_empty)

lemma sched_run_env_run:
  assumes "sched_run cfg u s r" "reachable cfg u s"
  shows "r = env_run cfg u s"
  using assms
proof (induction rule: sched_run.induct)
  case (idle s)
  then have "env_step cfg u s = Inl EmptySchedule" by (simp add: env_step_empty)
  then show ?case by (simp add: env_run.simps[of cfg u s])
next
  case (fail s e)
  have "env_step cfg u s = Inl e"
    using sched_step_env_step[OF reachable_inv_eid[OF fail.prems] fail.hyps] .
  moreover have "e \<noteq> EmptySchedule"
    using sched_step_not_empty[OF fail.hyps] by simp
  ultimately show ?case by (simp add: env_run.simps[of cfg u s])
next
  case (continue s s' r)
  have e: "env_step cfg u s = Inr s'"
    using sched_step_env_step[OF reachable_inv_eid[OF continue.prems] continue.hyps(1)] .
  have "r = env_run cfg u s'"
    using continue.IH[OF reachable.step[OF continue.prems e]] .
  then show ?case using e by (simp add: env_run.simps[of cfg u s])
qed

lemma env_step_sched_step:
  assumes "queue s \<noteq> []"
  shows "sched_step cfg u s (env_step cfg u s)"
proof -
  obtain m q where p: "heappop (queue s) = Some (m, q)"
    using assms by (cases "heappop (queue s)") auto
  note h = heappop_Some[OF p]
  have "is_next (queue s) m" using h(1,3) by (simp add: is_next_def)
  from sched_step.exec[OF this, of cfg u]
  show ?thesis using p h(2) by (simp add: env_step_def)
qed

lemma sched_run_total: "sched_run cfg u s (env_run cfg u s)"
proof (induction cfg u s rule: env_run.induct)
  case (1 cfg u s)
  show ?case
  proof (cases "queue s = []")
    case True
    then have "env_step cfg u s = Inl EmptySchedule" by (simp add: env_step_empty)
    then have "env_run cfg u s = Inr s" by (simp add: env_run.simps[of cfg u s])
    then show ?thesis using sched_run.idle[OF True, of cfg u] by simp
  next
    case False
    note st = env_step_sched_step[OF False, of cfg u]
    show ?thesis
    proof (cases "env_step cfg u s")
      case (Inl e)
      then have "e \<noteq> EmptySchedule" using False env_step_empty[of cfg u s] by auto
      then have "env_run cfg u s = Inl e" using Inl by (simp add: env_run.simps[of cfg u s])
      then show ?thesis using sched_run.fail[of cfg u s e] st Inl by simp
    next
      case (Inr s')
      then have "env_run cfg u s = env_run cfg u s'" by (simp add: env_run.simps[of cfg u s])
      then show ?thesis using sched_run.continue[of cfg u s s', OF _ "1.IH"[OF Inr]] st Inr by simp
    qed
  qed
qed

text \<open>
  C4: for a fixed configuration, whose seed fixes the random stream, any two runs of
  the scheduler from the initial state have the same outcome: both raise the same
  error or both end in the same state, in particular with the same sequence of
  recorded waits and the same elapsed time.  The outcome is the one \<open>env_run\<close>
  computes, what \<open>run_simulation\<close> returns is read from it, and a run exists.
\<close>

theorem determinism:
  assumes "sched_run cfg (prng (RANDOM_SEED cfg)) initial r1"
    and "sched_run cfg (prng (RANDOM_SEED cfg)) initial r2"
  shows "r1 = r2 \<and>
     (\<forall>f1 f2. r1 = Inr f1 \<and> r2 = Inr f2 \<longrightarrow>
        wait_times f1 = wait_times f2 \<and> now f1 = now f2) \<and>
     r1 = env_run cfg (prng (RANDOM_SEED cfg)) initial \<and>
     (\<forall>r. run_simulation prng cfg = Inr r \<longrightarrow>
        (\<exists>f. r1 = Inr f \<and> waits r = wait_times f \<and> total_time r = now f)) \<and>
     sched_run cfg (prng (RANDOM_SEED cfg)) initial (env_run cfg (prng (RANDOM_SEED cfg)) initial)"
proof -
  have 1: "r1 = env_run cfg (prng (RANDOM_SEED cfg)) initial"
    using sched_run_env_run[OF assms(1) reachable.start] .
  have 2: "r2 = env_run cfg (prng (RANDOM_SEED cfg)) initial"
    using sched_run_env_run[OF assms(2) reachable.start] .
  have 3: "r1 = r2" using 1 2 by simp
  have 4: "\<forall>f1 f2. r1 = Inr f1 \<and> r2 = Inr f2 \<longrightarrow>
        wait_times f1 = wait_times f2 \<and> now f1 = now f2"
    using 3 by auto
  have 5: "\<forall>r. run_simulation prng cfg = Inr r \<longrightarrow>
        (\<exists>f. r1 = Inr f \<and> waits r = wait_times f \<and> total_time r = now f)"
  proof (intro allI impI)
    fix r assume "run_simulation prng cfg = Inr r"
    from run_simulation_Inr[OF this] 1
    show "\<exists>f. r1 = Inr f \<and> waits r = wait_times f \<and> total_time r = now f"
      by auto
  qed
  show ?thesis
    by (intro conjI 3 4 1 5 sched_run_total)
qed

theorem determinism_witness:
  "\<exists>f. sched_run scenario_config (scenario_prng (RANDOM_SEED scenario_config)) initial (Inr f) \<and>
     env_run scenario_config scenario_stream initial = Inr f \<and>
     wait_times f = [0, 2, 4] \<and> now f = 9"
proof -
  obtain f where f: "env_run scenario_config scenario_stream initial = Inr f"
    and v: "wait_times f = [0, 2, 4]" "now f = 9"
    using scenario_final by blast
  have "sched_run scenario_config (scenario_prng (RANDOM_SEED scenario_config)) initial
      (env_run scenario_config (scenario_prng (RANDOM_SEED scenario_config)) initial)"
    by (rule sched_run_total)
  then have r: "sched_run scenario_config (scenario_prng (RANDOM_SEED scenario_config)) initial
      (Inr f)"
    using f by (simp add: scenario_prng_def)
  have "Inr f = env_run scenario_config (scenario_prng (RANDOM_SEED scenario_config)) initial"
    using determinism[where prng = scenario_prng and cfg = scenario_config, OF r r] by blast
  then have "env_run scenario_config scenario_stream initial = Inr f"
    by (simp add: scenario_prng_def)
  then show ?thesis using r v by blast
qed

subsection \<open>The utilization\<close>



subsection \<open>The arrival generator\<close>

lemma draws_used:
  "reachable cfg u s \<Longrightarrow>
     (\<exists>ns. delays s = map (\<lambda>n. expovariate (1 / INTERVAL cfg) (u n)) ns \<and>
        sorted_wrt (<) ns \<and> (\<forall>n\<in>set ns. n < draws s)) \<and>
     draws s = length (delays s) + length (service_times s)"
proof (induction rule: reachable.induct)
  case start
  then show ?case by (simp add: initial_def schedule_def)
next
  case (step s s')
  from step.IH obtain ns where ns: "delays s = map (\<lambda>n. expovariate (1 / INTERVAL cfg) (u n)) ns"
    "sorted_wrt (<) ns" "\<forall>n\<in>set ns. n < draws s"
    and l: "draws s = length (delays s) + length (service_times s)"
    by blast
  from step.hyps(2) show ?case
  proof (cases rule: env_step_cases)
    case (spawn e d)
    have "delays s' = map (\<lambda>n. expovariate (1 / INTERVAL cfg) (u n)) (ns @ [draws s])"
      "sorted_wrt (<) (ns @ [draws s])" "\<forall>n\<in>set (ns @ [draws s]). n < draws s'"
      using ns spawn(6) by (auto simp: spawn(8) sorted_wrt_append less_Suc_eq)
    moreover have "draws s' = length (delays s') + length (service_times s')"
      using l by (simp add: spawn(8))
    ultimately show ?thesis by blast
  next
    case (serve e i a d)
    have "delays s' = map (\<lambda>n. expovariate (1 / INTERVAL cfg) (u n)) ns"
      "\<forall>n\<in>set ns. n < draws s'"
      using ns by (auto simp: serve(7) less_Suc_eq)
    moreover have "draws s' = length (delays s') + length (service_times s')"
      using l by (simp add: serve(7))
    ultimately show ?thesis using ns(2) by blast
  qed (use ns l in auto)
qed

text \<open>One iteration of the generator: the customer is spawned at the current time and
  the delay awaited afterwards is drawn from the next number of the stream.\<close>

lemma setup_iteration:
  assumes "heappop (queue s) = Some (e, q)" "kind e = SetupTimeout"
    "int (spawned s) < CUSTOMERS cfg" "INTERVAL cfg \<noteq> 0"
    "0 \<le> expovariate (1 / INTERVAL cfg) (u (draws s))"
  shows "\<exists>s'. env_step cfg u s = Inr s' \<and> now s' = time e \<and> spawned s' = Suc (spawned s) \<and>
     draws s' = Suc (draws s) \<and>
     delays s' = delays s @ [expovariate (1 / INTERVAL cfg) (u (draws s))] \<and>
     queue s' = q @
       [Event (time e) URGENT (next_eid s) (InitCustomer (spawned s)),
        Event (time e + expovariate (1 / INTERVAL cfg) (u (draws s))) NORMAL
          (Suc (next_eid s)) SetupTimeout]"
  using assms by (simp add: env_step_def setup_loop_def timeout_def schedule_def)

text \<open>
  C6, as stated: the generator first draws a delay and waits for it and only then spawns
  a customer, so that every arrival is preceded by a drawn delay.  The program spawns
  first: in the scenario the first delay drawn is 1, and customer 0 has arrived at time
  0, in the same instant in which the generator started.
\<close>

theorem first_customer_not_delayed:
  "case env_steps scenario_config scenario_stream 2 initial of
     Inl e \<Rightarrow> False
   | Inr s \<Rightarrow> delays s = [expovariate (1 / INTERVAL scenario_config) (scenario_stream 0)] \<and>
       delays s = [1] \<and> spawned s = 1 \<and> arrive s 0 = Some 0 \<and> now s = 0"
  by (simp add: eval_nat_numeral scenario_config_def scenario_stream_def eval_defs
        expovariate_unit expovariate_zero)

text \<open>
  C6, amended: in each iteration the generator spawns one customer, whose start is
  scheduled at the current time, and only then draws a delay \<open>expovariate (1 / INTERVAL)\<close>
  from the next number of the random stream and suspends for it; it repeats until
  \<open>CUSTOMERS\<close> customers are spawned.  Hence at every moment there are as many delays
  as customers spawned and at most \<open>CUSTOMERS\<close> of them, the delays are the values
  of distinct numbers of the stream in the order of their draw (every number taken
  from the stream feeds one delay or one service duration), no delay is negative, the
  generator's pending timeout is due when all the delays drawn have elapsed, and
  customer \<open>k\<close> arrives when the first \<open>k\<close> delays have elapsed: customer 0 at time 0.
  When the run has ended exactly \<open>CUSTOMERS\<close> customers have been spawned (none when
  \<open>CUSTOMERS\<close> is negative) and each has arrived at that time; the delay drawn after the
  last one precedes no arrival.
\<close>

theorem arrivals_follow_delays:
  assumes "reachable cfg u s"
  shows "length (delays s) = spawned s \<and> int (spawned s) \<le> max 0 (CUSTOMERS cfg) \<and>
     (\<exists>ns. delays s = map (\<lambda>n. expovariate (1 / INTERVAL cfg) (u n)) ns \<and>
        sorted_wrt (<) ns \<and> (\<forall>n\<in>set ns. n < draws s)) \<and>
     draws s = length (delays s) + length (service_times s) \<and>
     (\<forall>d\<in>set (delays s). 0 \<le> d) \<and>
     (\<forall>e\<in>set (queue s). kind e = SetupTimeout \<longrightarrow> time e = sum_list (delays s)) \<and>
     (\<forall>e q. heappop (queue s) = Some (e, q) \<longrightarrow> kind e = SetupTimeout \<longrightarrow>
        int (spawned s) < CUSTOMERS cfg \<longrightarrow> INTERVAL cfg \<noteq> 0 \<longrightarrow>
        0 \<le> expovariate (1 / INTERVAL cfg) (u (draws s)) \<longrightarrow>
        (\<exists>s'. env_step cfg u s = Inr s' \<and> now s' = time e \<and> spawned s' = Suc (spawned s) \<and>
           draws s' = Suc (draws s) \<and>
           delays s' = delays s @ [expovariate (1 / INTERVAL cfg) (u (draws s))] \<and>
           queue s' = q @
             [Event (time e) URGENT (next_eid s) (InitCustomer (spawned s)),
              Event (time e + expovariate (1 / INTERVAL cfg) (u (draws s))) NORMAL
                (Suc (next_eid s)) SetupTimeout])) \<and>
     (\<forall>k a. arrive s k = Some a \<longrightarrow> k < spawned s \<and> a = sum_list (take k (delays s))) \<and>
     (queue s = [] \<longrightarrow> int (spawned s) = max 0 (CUSTOMERS cfg) \<and>
        (\<forall>k<spawned s. arrive s k = Some (sum_list (take k (delays s)))))"
proof -
  note i = reachable_inv_setup[OF assms]
  have 1: "length (delays s) = spawned s" and 5: "\<forall>d\<in>set (delays s). 0 \<le> d"
    and 6: "\<forall>e\<in>set (queue s). kind e = SetupTimeout \<longrightarrow> time e = sum_list (delays s)"
    using i by (simp_all add: inv_setup_def)
  have 2: "int (spawned s) \<le> max 0 (CUSTOMERS cfg)"
    using i by (auto simp: inv_setup_def)
  note 3 = draws_used[OF assms, THEN conjunct1]
  note 4 = draws_used[OF assms, THEN conjunct2]
  have 7: "\<forall>e q. heappop (queue s) = Some (e, q) \<longrightarrow> kind e = SetupTimeout \<longrightarrow>
        int (spawned s) < CUSTOMERS cfg \<longrightarrow> INTERVAL cfg \<noteq> 0 \<longrightarrow>
        0 \<le> expovariate (1 / INTERVAL cfg) (u (draws s)) \<longrightarrow>
        (\<exists>s'. env_step cfg u s = Inr s' \<and> now s' = time e \<and> spawned s' = Suc (spawned s) \<and>
           draws s' = Suc (draws s) \<and>
           delays s' = delays s @ [expovariate (1 / INTERVAL cfg) (u (draws s))] \<and>
           queue s' = q @
             [Event (time e) URGENT (next_eid s) (InitCustomer (spawned s)),
              Event (time e + expovariate (1 / INTERVAL cfg) (u (draws s))) NORMAL
                (Suc (next_eid s)) SetupTimeout])"
    using setup_iteration[of s _ _ cfg u] by blast
  have d: "\<forall>k a. arrive s k = Some a \<longrightarrow> a = sum_list (take k (delays s)) \<and> k < length (delays s)"
    using reachable_inv_delay[OF assms] by (simp add: inv_delay_def)
  have 8: "\<forall>k a. arrive s k = Some a \<longrightarrow> k < spawned s \<and> a = sum_list (take k (delays s))"
    using d 1 by auto
  have 9: "queue s = [] \<longrightarrow> int (spawned s) = max 0 (CUSTOMERS cfg) \<and>
        (\<forall>k<spawned s. arrive s k = Some (sum_list (take k (delays s))))"
  proof (intro impI conjI allI)
    assume q: "queue s = []"
    show "int (spawned s) = max 0 (CUSTOMERS cfg)"
      using final_spawned[OF assms q] .
    fix k assume "k < spawned s"
    then have "arrive s k \<noteq> None"
      using inv_custD(2)[OF reachable_inv_cust[OF assms], of k] q
      by (auto simp: ok_init_def split: if_splits)
    then show "arrive s k = Some (sum_list (take k (delays s)))"
      using d by auto
  qed
  show ?thesis
    by (intro conjI 1 2 3 4 5 6 7 8 9)
qed

theorem arrivals_follow_delays_witness:
  "(\<exists>s s'. env_steps scenario_config scenario_stream 3 initial = Inr s \<and>
      spawned s = 1 \<and> delays s = [1] \<and> now s = 0 \<and> draws s = 2 \<and>
      env_step scenario_config scenario_stream s = Inr s' \<and>
      now s' = 1 \<and> spawned s' = 2 \<and> draws s' = 3 \<and> delays s' = [1, 1]) \<and>
   (\<exists>s. env_run scenario_config scenario_stream initial = Inr s \<and> queue s = [] \<and>
      int (spawned s) = CUSTOMERS scenario_config \<and> delays s = [1, 1, 0] \<and>
      arrive s 0 = Some 0 \<and> arrive s 1 = Some 1 \<and> arrive s 2 = Some 2 \<and> draws s = 6)"
proof -
  have "\<exists>s e q. env_steps scenario_config scenario_stream 3 initial = Inr s \<and>
      spawned s = 1 \<and> delays s = [1] \<and> now s = 0 \<and> draws s = 2 \<and>
      heappop (queue s) = Some (e, q) \<and> kind e = SetupTimeout \<and> time e = 1"
    by (simp add: eval_nat_numeral scenario_config_def scenario_stream_def eval_defs
        expovariate_unit expovariate_zero)
  then obtain s e q where e: "env_steps scenario_config scenario_stream 3 initial = Inr s"
    and v: "spawned s = 1" "delays s = [1]" "now s = 0" "draws s = 2"
    and p: "heappop (queue s) = Some (e, q)" "kind e = SetupTimeout" "time e = 1"
    by blast
  have r: "reachable scenario_config scenario_stream s"
    using reachable_steps[OF reachable.start e] .
  have c: "int (spawned s) < CUSTOMERS scenario_config" "INTERVAL scenario_config \<noteq> 0"
    "expovariate (1 / INTERVAL scenario_config) (scenario_stream (draws s)) = 1"
    using v by (simp_all add: scenario_config_def scenario_stream_def expovariate_unit)
  from arrivals_follow_delays[OF r] p(1,2) c
  obtain s' where s': "env_step scenario_config scenario_stream s = Inr s'"
    "now s' = time e" "spawned s' = Suc (spawned s)" "draws s' = Suc (draws s)"
    "delays s' = delays s @ [1]"
    by force
  have a: "\<exists>s s'. env_steps scenario_config scenario_stream 3 initial = Inr s \<and>
      spawned s = 1 \<and> delays s = [1] \<and> now s = 0 \<and> draws s = 2 \<and>
      env_step scenario_config scenario_stream s = Inr s' \<and>
      now s' = 1 \<and> spawned s' = 2 \<and> draws s' = 3 \<and> delays s' = [1, 1]"
    using e v s' p(3) by auto
  obtain f where f: "env_run scenario_config scenario_stream initial = Inr f"
    and w: "delays f = [1, 1, 0]" "arrive f 0 = Some 0" "arrive f 1 = Some 1"
      "arrive f 2 = Some 2" "service_times f = [3, 3, 3]"
    using scenario_final by blast
  have rf: "reachable scenario_config scenario_stream f" "queue f = []"
    using env_run_initial[OF f] by simp_all
  have "int (spawned f) = CUSTOMERS scenario_config" "draws f = 6"
    using arrivals_follow_delays[OF rf(1)] rf(2) w(1,5) by (simp_all add: scenario_config_def)
  then have b: "\<exists>s. env_run scenario_config scenario_stream initial = Inr s \<and> queue s = [] \<and>
      int (spawned s) = CUSTOMERS scenario_config \<and> delays s = [1, 1, 0] \<and>
      arrive s 0 = Some 0 \<and> arrive s 1 = Some 1 \<and> arrive s 2 = Some 2 \<and> draws s = 6"
    using f rf(2) w by blast
  show ?thesis
    using a b by blast
qed

subsection \<open>Configurations that are not valid\<close>

text \<open>
  C7, as stated: a configuration with a capacity, a count or a mean interval that is
  not positive, or with service bounds \<open>min > max\<close>, is rejected with an
  \<open>InvalidConfiguration\<close> error before any event executes.  The program checks nothing:
  with the service bounds \<open>(7, 3)\<close> the run is not rejected.  It executes all its
  events and reports three services of duration \<open>7\<close> and an elapsed time of \<open>21\<close>.
\<close>

theorem inverted_bounds_accepted:
  "snd (SERVICE_TIME inverted_config) < fst (SERVICE_TIME inverted_config) \<and>
   (case run_simulation scenario_prng inverted_config of
      Inl e \<Rightarrow> False
    | Inr r \<Rightarrow> services r = [7, 7, 7] \<and> waits r = [0, 6, 12] \<and> total_time r = 21)"
  by (simp add: run_simulation_def scenario_prng_def inverted_config_def scenario_stream_def
        env_run.simps eval_defs expovariate_unit expovariate_zero)

text \<open>
  C7, amended: the configuration is not validated, and a value that is not valid
  surfaces as the exception of the library call that meets it.  For a random stream
  of numbers in \<open>[0, 1)\<close>: a capacity that is not positive raises \<open>ValueError\<close> (the
  constructor of the resource, in the first event); with a count that is not positive
  the event loop ends at time \<open>0\<close> with nothing recorded and the mean of the waits
  raises \<open>StatisticsError\<close>; a mean interval of zero raises \<open>ZeroDivisionError\<close> and a
  negative one raises \<open>ValueError\<close> (a negative delay) when the first number drawn is
  positive.  Service bounds \<open>min > max\<close> are not rejected: with a capacity, a count and
  a mean interval that are positive and two positive service bounds in either order,
  the run completes and reports its summary.
\<close>

theorem config_outcomes:
  assumes "\<forall>n. 0 \<le> prng (RANDOM_SEED cfg) n \<and> prng (RANDOM_SEED cfg) n < 1"
  shows "(CASHIERS cfg \<le> 0 \<longrightarrow>
        env_step cfg (prng (RANDOM_SEED cfg)) initial = Inl ValueError \<and>
        run_simulation prng cfg = Inl ValueError) \<and>
     (0 < CASHIERS cfg \<and> CUSTOMERS cfg \<le> 0 \<longrightarrow>
        (\<exists>f. env_run cfg (prng (RANDOM_SEED cfg)) initial = Inr f \<and> wait_times f = [] \<and>
           now f = 0) \<and>
        run_simulation prng cfg = Inl StatisticsError) \<and>
     (0 < CASHIERS cfg \<and> 0 < CUSTOMERS cfg \<and> INTERVAL cfg = 0 \<longrightarrow>
        run_simulation prng cfg = Inl ZeroDivisionError) \<and>
     (0 < CASHIERS cfg \<and> 0 < CUSTOMERS cfg \<and> INTERVAL cfg < 0 \<and>
        0 < prng (RANDOM_SEED cfg) 0 \<longrightarrow>
        run_simulation prng cfg = Inl ValueError) \<and>
     (0 < CASHIERS cfg \<and> 0 < CUSTOMERS cfg \<and> 0 < INTERVAL cfg \<and>
        0 < fst (SERVICE_TIME cfg) \<and> 0 < snd (SERVICE_TIME cfg) \<longrightarrow>
        (\<exists>r. run_simulation prng cfg = Inr r \<and> served r = CUSTOMERS cfg \<and>
           int (length (waits r)) = CUSTOMERS cfg \<and>
           length (services r) = length (waits r) \<and> 0 < total_time r))"
proof (intro conjI impI)
  assume c: "CASHIERS cfg \<le> 0"
  show "env_step cfg (prng (RANDOM_SEED cfg)) initial = Inl ValueError"
    using no_cashiers_initial[OF c] .
  show "run_simulation prng cfg = Inl ValueError"
    using run_no_cashier[OF c] by (simp add: run_simulation_def)
next
  assume "0 < CASHIERS cfg \<and> CUSTOMERS cfg \<le> 0"
  then have c: "0 < CASHIERS cfg" "CUSTOMERS cfg \<le> 0" by simp_all
  from run_no_customers[OF c, of "prng (RANDOM_SEED cfg)"]
  obtain f where f: "env_run cfg (prng (RANDOM_SEED cfg)) initial = Inr f"
    "wait_times f = []" "now f = 0"
    by blast
  show "\<exists>f. env_run cfg (prng (RANDOM_SEED cfg)) initial = Inr f \<and> wait_times f = [] \<and>
      now f = 0"
    using f by blast
  show "run_simulation prng cfg = Inl StatisticsError"
    using f by (simp add: run_simulation_def mean_def)
next
  assume "0 < CASHIERS cfg \<and> 0 < CUSTOMERS cfg \<and> INTERVAL cfg = 0"
  then have c: "0 < CASHIERS cfg" "0 < CUSTOMERS cfg" "INTERVAL cfg = 0" by simp_all
  show "run_simulation prng cfg = Inl ZeroDivisionError"
    using run_interval_zero[OF c] by (simp add: run_simulation_def)
next
  assume "0 < CASHIERS cfg \<and> 0 < CUSTOMERS cfg \<and> INTERVAL cfg < 0 \<and>
      0 < prng (RANDOM_SEED cfg) 0"
  then have c: "0 < CASHIERS cfg" "0 < CUSTOMERS cfg" "INTERVAL cfg < 0"
    "0 < prng (RANDOM_SEED cfg) 0"
    by simp_all
  have "prng (RANDOM_SEED cfg) 0 < 1" using assms by simp
  from run_interval_negative[of cfg "prng (RANDOM_SEED cfg)", OF c this]
  show "run_simulation prng cfg = Inl ValueError"
    by (simp add: run_simulation_def)
next
  assume "0 < CASHIERS cfg \<and> 0 < CUSTOMERS cfg \<and> 0 < INTERVAL cfg \<and>
      0 < fst (SERVICE_TIME cfg) \<and> 0 < snd (SERVICE_TIME cfg)"
  then have c: "0 < CASHIERS cfg" "0 < CUSTOMERS cfg" "0 < INTERVAL cfg"
    "0 < fst (SERVICE_TIME cfg)" "0 < snd (SERVICE_TIME cfg)"
    by simp_all
  from run_valid[of cfg "prng (RANDOM_SEED cfg)", OF c assms]
  obtain f where f: "env_run cfg (prng (RANDOM_SEED cfg)) initial = Inr f"
    and l: "int (length (wait_times f)) = CUSTOMERS cfg"
      "length (service_times f) = length (wait_times f)"
    and n: "0 < now f"
    by blast
  have w: "wait_times f \<noteq> []" using l(1) c(2) by auto
  then have v: "service_times f \<noteq> []" using l(2) by auto
  have z: "now f * real_of_int (CASHIERS cfg) \<noteq> 0" using n c(1) by simp
  show "\<exists>r. run_simulation prng cfg = Inr r \<and> served r = CUSTOMERS cfg \<and>
      int (length (waits r)) = CUSTOMERS cfg \<and>
      length (services r) = length (waits r) \<and> 0 < total_time r"
    using f w v z l n by (simp add: run_simulation_def mean_def)
qed

theorem config_outcomes_witness:
  "(\<exists>r. run_simulation scenario_prng inverted_config = Inr r \<and> served r = 3 \<and>
      length (waits r) = 3 \<and> 0 < total_time r) \<and>
   run_simulation scenario_prng (scenario_config\<lparr>CASHIERS := 0\<rparr>) = Inl ValueError \<and>
   run_simulation scenario_prng (scenario_config\<lparr>CUSTOMERS := 0\<rparr>) = Inl StatisticsError \<and>
   run_simulation scenario_prng (scenario_config\<lparr>INTERVAL := 0\<rparr>) = Inl ZeroDivisionError \<and>
   run_simulation scenario_prng (scenario_config\<lparr>INTERVAL := - 5\<rparr>) = Inl ValueError"
proof -
  have h: "\<forall>n. 0 \<le> scenario_prng (RANDOM_SEED c) n \<and> scenario_prng (RANDOM_SEED c) n < 1" for c
    using scenario_stream_range by (simp add: scenario_prng_def)
  have p: "0 < scenario_prng k 0" for k
    by (simp add: scenario_prng_def scenario_stream_def)
  have a: "\<exists>r. run_simulation scenario_prng inverted_config = Inr r \<and> served r = 3 \<and>
      length (waits r) = 3 \<and> 0 < total_time r"
    using config_outcomes[where prng = scenario_prng and cfg = inverted_config, OF h]
    by (auto simp: inverted_config_def)
  have b: "run_simulation scenario_prng (scenario_config\<lparr>CASHIERS := 0\<rparr>) = Inl ValueError"
    using config_outcomes[where prng = scenario_prng and cfg = "scenario_config\<lparr>CASHIERS := 0\<rparr>", OF h]
    by (simp add: scenario_config_def)
  have c: "run_simulation scenario_prng (scenario_config\<lparr>CUSTOMERS := 0\<rparr>) = Inl StatisticsError"
    using config_outcomes[where prng = scenario_prng and cfg = "scenario_config\<lparr>CUSTOMERS := 0\<rparr>", OF h]
    by (simp add: scenario_config_def)
  have d: "run_simulation scenario_prng (scenario_config\<lparr>INTERVAL := 0\<rparr>) = Inl ZeroDivisionError"
    using config_outcomes[where prng = scenario_prng and cfg = "scenario_config\<lparr>INTERVAL := 0\<rparr>", OF h]
    by (simp add: scenario_config_def)
  have e: "run_simulation scenario_prng (scenario_config\<lparr>INTERVAL := - 5\<rparr>) = Inl ValueError"
    using config_outcomes[where prng = scenario_prng and cfg = "scenario_config\<lparr>INTERVAL := - 5\<rparr>", OF h] p
    by (simp add: scenario_config_def)
  show ?thesis using a b c d e by blast
qed

subsection \<open>The scenario of three customers and one cashier\<close>

text \<open>
  C8, as stated: with capacity 1, arrivals at 0, 1 and 2 and service duration 3, the
  waits are 0, 2 and 4 and the total elapsed time is 8.  The run of the program records
  these waits, but its clock stops at 9, the end of the third service, not at 8.
\<close>

theorem scenario_elapsed_not_8:
  "case run_simulation scenario_prng scenario_config of
     Inl e \<Rightarrow> False
   | Inr r \<Rightarrow> waits r = [0, 2, 4] \<and> services r = [3, 3, 3] \<and> total_time r \<noteq> 8"
  by (simp add: run_simulation_def scenario_prng_def scenario_config_def scenario_stream_def
        env_run.simps eval_defs expovariate_unit expovariate_zero)

text \<open>
  C8, amended: in this scenario the recorded waits are 0, 2 and 4, the total elapsed
  time is 9 and the utilization is exactly 100 percent.
\<close>

theorem scenario_run:
  "run_simulation scenario_prng scenario_config =
     Inr \<lparr>served = 3, avg_wait = 2, avg_service = 3, total_time = 9, utilization = 100,
          waits = [0, 2, 4], services = [3, 3, 3]\<rparr>"
  by (simp add: run_simulation_def scenario_prng_def scenario_config_def scenario_stream_def
        env_run.simps eval_defs expovariate_unit expovariate_zero)

subsection \<open>The total elapsed time\<close>

lemma expovariate_five: "expovariate (1 / 5) (1 - exp (- 1)) = 5"
  by (simp add: expovariate_def)

lemma late_final:
  "\<exists>s. env_run late_config late_stream initial = Inr s \<and> spawned s = 1 \<and>
     delays s = [5] \<and> arrive s 0 = Some 0 \<and> leaves s 0 = Some 3 \<and> service_times s = [3]"
  by (simp add: late_config_def late_stream_def
        env_run.simps eval_defs expovariate_five expovariate_zero)

text \<open>
  C9: when \<open>env.run()\<close> has returned, the clock shows the later of two times: the end of
  the generator, which is the sum of the delays it has drawn, one for each of the
  \<open>CUSTOMERS\<close> customers, and the latest departure of a customer.  Customer \<open>k\<close> arrived
  when the first \<open>k\<close> delays had elapsed, so the last delay is awaited after the last
  customer has been spawned.  Every customer has left, no later than \<open>latest\<close>, which is
  the departure time of one of them.  The elapsed time can exceed the end of the last
  service: in the run of \<open>late_config\<close> the only service ends at \<open>3\<close> and the clock
  stops at \<open>5\<close>.
\<close>

theorem elapsed_time:
  assumes "env_run cfg u initial = Inr f"
  shows "now f = max (sum_list (delays f)) (latest f) \<and>
     int (length (delays f)) = max 0 (CUSTOMERS cfg) \<and> length (delays f) = spawned f \<and>
     (\<forall>k<spawned f. arrive f k = Some (sum_list (take k (delays f)))) \<and>
     (\<forall>i<spawned f. \<exists>l. leaves f i = Some l \<and> l \<le> latest f) \<and>
     (0 < spawned f \<longrightarrow> (\<exists>i<spawned f. leaves f i = Some (latest f))) \<and>
     (\<exists>f'. env_run late_config late_stream initial = Inr f' \<and> latest f' < now f')"
proof -
  have r: "reachable cfg u f" and q: "queue f = []"
    using env_run_initial[OF assms] by simp_all
  note c = run_needs_cashier[OF assms]
  have 1: "now f = max (sum_list (delays f)) (latest f)"
    using final_now[OF r q] .
  have 3: "length (delays f) = spawned f"
    using reachable_inv_setup[OF r] by (simp add: inv_setup_def)
  have 2: "int (length (delays f)) = max 0 (CUSTOMERS cfg)"
    using final_spawned[OF r q] 3 by simp
  note fs = final_state(3)[OF r q c]
  have d: "\<forall>k a. arrive f k = Some a \<longrightarrow> a = sum_list (take k (delays f)) \<and> k < length (delays f)"
    using reachable_inv_delay[OF r] by (simp add: inv_delay_def)
  have 4: "\<forall>k<spawned f. arrive f k = Some (sum_list (take k (delays f)))"
  proof (intro allI impI)
    fix k assume "k < spawned f"
    then have "arrive f k \<noteq> None" using fs by simp
    then show "arrive f k = Some (sum_list (take k (delays f)))" using d by auto
  qed
  have l: "\<forall>i<spawned f. \<exists>l. leaves f i = Some l \<and> 0 \<le> l"
  proof (intro allI impI)
    fix i assume "i < spawned f"
    then have "leaves f i \<noteq> None" using fs by simp
    then obtain l where "leaves f i = Some l" by blast
    then show "\<exists>l. leaves f i = Some l \<and> 0 \<le> l"
      using leaves_past[OF r] by blast
  qed
  have 5: "\<forall>i<spawned f. \<exists>l. leaves f i = Some l \<and> l \<le> latest f"
  proof (intro allI impI)
    fix i assume i: "i < spawned f"
    then obtain l where "leaves f i = Some l" using l by blast
    then show "\<exists>l. leaves f i = Some l \<and> l \<le> latest f"
      using latest_ge[OF i] by simp
  qed
  have 6: "0 < spawned f \<longrightarrow> (\<exists>i<spawned f. leaves f i = Some (latest f))"
    using latest_attained[OF _ l] by simp
  obtain g where g: "env_run late_config late_stream initial = Inr g"
    and v: "spawned g = 1" "delays g = [5]" "leaves g 0 = Some 3"
    using late_final by blast
  have "latest g = 3" using v by (simp add: latest_def departures_def)
  moreover have "now g = max (sum_list (delays g)) (latest g)"
    using final_now env_run_initial[OF g] by blast
  ultimately have "latest g < now g" using v(2) by simp
  then have 7: "\<exists>f'. env_run late_config late_stream initial = Inr f' \<and> latest f' < now f'"
    using g by blast
  show ?thesis
    by (intro conjI 1 2 3 4 5 6 7)
qed

theorem elapsed_time_witness:
  "(\<exists>f. env_run late_config late_stream initial = Inr f \<and>
      sum_list (delays f) = 5 \<and> latest f = 3 \<and> now f = 5 \<and> arrive f 0 = Some 0 \<and>
      int (length (delays f)) = CUSTOMERS late_config) \<and>
   (\<exists>f. env_run scenario_config scenario_stream initial = Inr f \<and>
      sum_list (delays f) = 2 \<and> latest f = 9 \<and> now f = 9 \<and> leaves f 2 = Some (latest f))"
proof -
  obtain g where g: "env_run late_config late_stream initial = Inr g"
    and v: "spawned g = 1" "delays g = [5]" "leaves g 0 = Some 3" "arrive g 0 = Some 0"
    using late_final by blast
  have lg: "latest g = 3" using v by (simp add: latest_def departures_def)
  have "now g = 5" "int (length (delays g)) = CUSTOMERS late_config"
    using elapsed_time[OF g] v(2) lg by (simp_all add: late_config_def)
  then have a: "\<exists>f. env_run late_config late_stream initial = Inr f \<and>
      sum_list (delays f) = 5 \<and> latest f = 3 \<and> now f = 5 \<and> arrive f 0 = Some 0 \<and>
      int (length (delays f)) = CUSTOMERS late_config"
    using g v lg by auto
  obtain f where f: "env_run scenario_config scenario_stream initial = Inr f"
    and w: "delays f = [1, 1, 0]" "leaves f 0 = Some 3" "leaves f 1 = Some 6"
      "leaves f 2 = Some 9"
    using scenario_final by blast
  have s: "spawned f = 3" using elapsed_time[OF f] w(1) by simp
  have lf: "latest f = 9"
    using w s by (simp add: latest_def departures_def eval_nat_numeral upt_rec)
  have "now f = 9" using elapsed_time[OF f] w(1) lf by simp
  then have b: "\<exists>f. env_run scenario_config scenario_stream initial = Inr f \<and>
      sum_list (delays f) = 2 \<and> latest f = 9 \<and> now f = 9 \<and> leaves f 2 = Some (latest f)"
    using f w lf by auto
  show ?thesis using a b by blast
qed

subsection \<open>The recorded statistics\<close>

text \<open>
  C10: with the service bounds \<open>(3, 7)\<close> of the program and a random stream of numbers
  in \<open>[0, 1)\<close>, in every state a run passes through \<open>busy_time\<close> is the sum of the
  entries of \<open>service_times\<close>, every entry of \<open>service_times\<close> lies in \<open>[3, 7]\<close> and
  every recorded wait is at least \<open>0\<close>.  When the run has ended, \<open>wait_times\<close> and
  \<open>service_times\<close> have \<open>CUSTOMERS\<close> entries each (none when \<open>CUSTOMERS\<close> is negative).
  And the run does end when there is a cashier and the mean interval is positive.
\<close>

theorem statistics_invariant:
  assumes "SERVICE_TIME cfg = (3, 7)" and "\<forall>n. 0 \<le> u n \<and> u n < 1"
  shows "(\<forall>s. reachable cfg u s \<longrightarrow>
        busy_time s = sum_list (service_times s) \<and>
        (\<forall>d\<in>set (service_times s). 3 \<le> d \<and> d \<le> 7) \<and>
        (\<forall>w\<in>set (wait_times s). 0 \<le> w)) \<and>
     (\<forall>f. env_run cfg u initial = Inr f \<longrightarrow>
        reachable cfg u f \<and>
        int (length (wait_times f)) = max 0 (CUSTOMERS cfg) \<and>
        int (length (service_times f)) = max 0 (CUSTOMERS cfg)) \<and>
     (0 < CASHIERS cfg \<longrightarrow> 0 < INTERVAL cfg \<longrightarrow> (\<exists>f. env_run cfg u initial = Inr f))"
proof (intro conjI allI impI)
  fix s assume r: "reachable cfg u s"
  show "busy_time s = sum_list (service_times s)"
    using reachable_inv_res[OF r] by (simp add: inv_res_def)
  have "\<forall>n. 0 \<le> u n \<and> u n \<le> 1" using assms(2) by (simp add: less_imp_le)
  from service_range[OF r _ this]
  show "\<forall>d\<in>set (service_times s). 3 \<le> d \<and> d \<le> 7"
    using assms(1) by simp
  show "\<forall>w\<in>set (wait_times s). 0 \<le> w"
    using waits_nonneg[OF r] .
next
  fix f assume f: "env_run cfg u initial = Inr f"
  have r: "reachable cfg u f" and q: "queue f = []"
    using env_run_initial[OF f] by simp_all
  show "reachable cfg u f" using r .
  have l: "length (wait_times f) = spawned f"
    using final_state(4)[OF r q run_needs_cashier[OF f]] .
  show w: "int (length (wait_times f)) = max 0 (CUSTOMERS cfg)"
    using final_spawned[OF r q] l by simp
  have "length (service_times f) = length (wait_times f)"
    using reachable_inv_res[OF r] by (simp add: inv_res_def)
  then show "int (length (service_times f)) = max 0 (CUSTOMERS cfg)"
    using w by simp
next
  assume "0 < CASHIERS cfg" "0 < INTERVAL cfg"
  from run_completes[OF reachable.start this _ _ assms(2)]
  show "\<exists>f. env_run cfg u initial = Inr f"
    using assms(1) by simp
qed

theorem statistics_invariant_witness:
  "\<exists>f. env_run scenario_config scenario_stream initial = Inr f \<and>
     service_times f = [3, 3, 3] \<and> wait_times f = [0, 2, 4] \<and>
     busy_time f = sum_list (service_times f) \<and> busy_time f = 9 \<and>
     int (length (wait_times f)) = CUSTOMERS scenario_config \<and>
     int (length (service_times f)) = CUSTOMERS scenario_config"
proof -
  have c: "SERVICE_TIME scenario_config = (3, 7)" "0 < CASHIERS scenario_config"
    "0 < INTERVAL scenario_config" "max 0 (CUSTOMERS scenario_config) = CUSTOMERS scenario_config"
    by (simp_all add: scenario_config_def)
  note t = statistics_invariant[OF c(1) scenario_stream_range]
  obtain f where f: "env_run scenario_config scenario_stream initial = Inr f"
    using t c(2,3) by blast
  have v: "service_times f = [3, 3, 3]" "wait_times f = [0, 2, 4]"
    using scenario_final f by auto
  have r: "reachable scenario_config scenario_stream f"
    "int (length (wait_times f)) = CUSTOMERS scenario_config"
    "int (length (service_times f)) = CUSTOMERS scenario_config"
    using t f c(4) by auto
  have "busy_time f = sum_list (service_times f)"
    using t r(1) by blast
  then show ?thesis
    using f v r(2,3) by simp
qed

end
